theory Spec2Isabelle
  imports Main
begin

unbundle bit_operations_syntax

section \<open>Python values and built-ins used by dijkstra.py\<close>

text \<open>
  The program is Python. Its integers are unbounded (\<open>int\<close>), its strings are lists of
  characters (a \<open>char\<close> is a code point below 256), its exceptions are values of
  \<open>error\<close> and a function that may raise returns \<open>error + 'a\<close> with \<open>Inl\<close> for the
  exception. A value of the wrong type (a host address that is not a string, a weight that
  is not an integer, an entry without its netmask) is excluded by the types; TypeError is
  raised only by the statements on objects, for an object of the wrong kind.
\<close>

datatype error = ValueError | IndexError | KeyError | OverflowError | TypeError

definition is_digit :: "char \<Rightarrow> bool" where
  "is_digit c = (c \<in> set ''0123456789'')"

definition digit_val :: "char \<Rightarrow> int" where
  "digit_val c = int (of_char c) - 48"

definition py_isspace :: "char \<Rightarrow> bool" where
  \<comment> \<open>the characters \<open>int()\<close> skips around a literal: tab, LF, VT, FF, CR and space, and
    the two other whitespace characters below 256, NEL and the no-break space\<close>
  "py_isspace c =
     (c \<in> set [CHR 0x09, CHR 0x0A, CHR 0x0B, CHR 0x0C, CHR 0x0D, CHR 0x20, CHR 0x85, CHR 0xA0])"

definition strip :: "string \<Rightarrow> string" where
  "strip s = rev (dropWhile py_isspace (rev (dropWhile py_isspace s)))"

text \<open>
  The digits of a decimal literal after its first digit: \<open>digit\<close> or \<open>_ digit\<close>, repeated
  (\<open>int("1_0") == 10\<close>, while \<open>int("1__0")\<close> and \<open>int("1_")\<close> raise).
\<close>

fun digits_value :: "int \<Rightarrow> string \<Rightarrow> int option" where
  "digits_value acc [] = Some acc"
| "digits_value acc (c # cs) =
     (if is_digit c then digits_value (10 * acc + digit_val c) cs
      else if c = CHR ''_'' then
        (case cs of
           [] \<Rightarrow> None
         | d # ds \<Rightarrow> if is_digit d then digits_value (10 * acc + digit_val d) ds else None)
      else None)"

definition unsigned_literal :: "string \<Rightarrow> int option" where
  "unsigned_literal r =
     (case r of
        [] \<Rightarrow> None
      | c # cs \<Rightarrow> if is_digit c then digits_value (digit_val c) cs else None)"

text \<open>
  \<open>int(s)\<close> on a string: surrounding whitespace, an optional sign, a decimal literal;
  anything else raises ValueError. (The limit that recent Python versions put on the number
  of digits, 4300 by default, is left out.)
\<close>

definition py_int :: "string \<Rightarrow> error + int" where
  "py_int s =
     (let t = strip s in
      case t of
        [] \<Rightarrow> Inl ValueError
      | c # r \<Rightarrow>
          if c = CHR ''-'' then
            (case unsigned_literal r of None \<Rightarrow> Inl ValueError | Some v \<Rightarrow> Inr (- v))
          else if c = CHR ''+'' then
            (case unsigned_literal r of None \<Rightarrow> Inl ValueError | Some v \<Rightarrow> Inr v)
          else
            (case unsigned_literal t of None \<Rightarrow> Inl ValueError | Some v \<Rightarrow> Inr v))"

text \<open>
  \<open>int(mask, 2)\<close> on the texts \<open>get_subnet_mask_value\<close> builds, which hold only the
  characters 1 and 0: the binary value, and ValueError on the empty text.
\<close>

fun bin_value :: "int \<Rightarrow> string \<Rightarrow> int option" where
  "bin_value acc [] = Some acc"
| "bin_value acc (c # cs) =
     (if c = CHR ''0'' then bin_value (2 * acc) cs
      else if c = CHR ''1'' then bin_value (2 * acc + 1) cs
      else None)"

definition py_int2 :: "string \<Rightarrow> error + int" where
  "py_int2 s =
     (if s = [] then Inl ValueError
      else case bin_value 0 s of None \<Rightarrow> Inl ValueError | Some v \<Rightarrow> Inr v)"

text \<open>\<open>str(n)\<close> on an integer.\<close>

definition digit_char :: "nat \<Rightarrow> char" where
  "digit_char n = ''0123456789'' ! n"

fun str_nat :: "nat \<Rightarrow> string" where
  "str_nat n = (if n < 10 then [digit_char n] else str_nat (n div 10) @ [digit_char (n mod 10)])"

declare str_nat.simps [simp del]

definition py_str :: "int \<Rightarrow> string" where
  "py_str i = (if i < 0 then CHR ''-'' # str_nat (nat (- i)) else str_nat (nat i))"

text \<open>\<open>s.split(c)\<close>: the fields between the separators, empty fields included.\<close>

fun split_on :: "char \<Rightarrow> string \<Rightarrow> string list" where
  "split_on c [] = [[]]"
| "split_on c (x # xs) =
     (if x = c then [] # split_on c xs
      else (case split_on c xs of [] \<Rightarrow> [[x]] | f # fs \<Rightarrow> (x # f) # fs))"

text \<open>\<open>sep.join(fields)\<close>.\<close>

fun join :: "string \<Rightarrow> string list \<Rightarrow> string" where
  "join sep [] = []"
| "join sep [f] = f"
| "join sep (f # g # fs) = f @ sep @ join sep (g # fs)"

section \<open>Address codec\<close>

text \<open>
  \<open>ipv4_to_value\<close>: for i in 0..3, the i-th field of the text is read with \<open>int()\<close>,
  shifted left by 8 * (3 - i) and or-ed into the value. A text with fewer than i + 1
  fields raises IndexError at step i; a field \<open>int()\<close> refuses raises ValueError.
  Fields after the fourth are never read, and no range is checked.
\<close>

fun ipv4_loop :: "string list \<Rightarrow> nat list \<Rightarrow> int \<Rightarrow> error + int" where
  "ipv4_loop fs [] v = Inr v"
| "ipv4_loop fs (i # rest) v =
     (if length fs \<le> i then Inl IndexError
      else case py_int (fs ! i) of
             Inl e \<Rightarrow> Inl e
           | Inr n \<Rightarrow> ipv4_loop fs rest (v OR push_bit (8 * (3 - i)) n))"

definition ipv4_to_value :: "string \<Rightarrow> error + int" where
  "ipv4_to_value ipv4_addr = ipv4_loop (split_on CHR ''.'' ipv4_addr) [0, 1, 2, 3] 0"

definition value_to_ipv4 :: "int \<Rightarrow> string" where
  "value_to_ipv4 addr =
     join ''.'' (map (\<lambda>i. py_str (drop_bit (8 * (3 - i)) addr AND 255)) [0, 1, 2, 3 :: nat])"

text \<open>
  \<open>c * n\<close> on a string of one character: the count is converted to the index type of
  the interpreter, 64 bits wide and signed, which raises OverflowError when it does not
  fit; a count below 1 gives the empty string. (A string longer than the memory of the
  machine raises MemoryError: the model has the memory that the index type addresses.)
\<close>

definition index_limit :: int where
  "index_limit = 2 ^ 63"

definition py_repeat :: "char \<Rightarrow> int \<Rightarrow> error + string" where
  "py_repeat c n =
     (if n < - index_limit \<or> index_limit \<le> n then Inl OverflowError
      else Inr (replicate (nat n) c))"

text \<open>
  \<open>get_subnet_mask_value\<close>: the text after the first slash is read with \<open>int()\<close>; the
  mask is the binary number written as that many ones followed by 32 minus that many
  zeros. The ones are built before the zeros.
\<close>

definition get_subnet_mask_value :: "string \<Rightarrow> error + int" where
  "get_subnet_mask_value slash =
     (let parts = split_on CHR ''/'' slash in
      if length parts \<le> 1 then Inl IndexError
      else case py_int (parts ! 1) of
             Inl e \<Rightarrow> Inl e
           | Inr v \<Rightarrow>
               (case py_repeat CHR ''1'' v of
                  Inl e \<Rightarrow> Inl e
                | Inr ones \<Rightarrow>
                    (case py_repeat CHR ''0'' (32 - v) of
                       Inl e \<Rightarrow> Inl e
                     | Inr zeros \<Rightarrow> py_int2 (ones @ zeros))))"

definition ips_same_subnet :: "string \<Rightarrow> string \<Rightarrow> string \<Rightarrow> error + bool" where
  "ips_same_subnet ip1 ip2 slash =
     (case ipv4_to_value ip1 of
        Inl e \<Rightarrow> Inl e
      | Inr v1 \<Rightarrow>
          (case ipv4_to_value ip2 of
             Inl e \<Rightarrow> Inl e
           | Inr v2 \<Rightarrow>
               (case get_subnet_mask_value slash of
                  Inl e \<Rightarrow> Inl e
                | Inr msk \<Rightarrow> Inr ((v1 AND msk) = (v2 AND msk)))))"

section \<open>Canonical dotted quads\<close>

text \<open>
  What the specification calls a valid canonical dotted-quad string: exactly four fields
  separated by dots, each a decimal number from 0 to 255 written without leading zeros.
\<close>

definition dec_step :: "int \<Rightarrow> char \<Rightarrow> int" where
  "dec_step a c = 10 * a + digit_val c"

definition decimal_value :: "string \<Rightarrow> int" where
  "decimal_value f = foldl dec_step 0 f"

definition canonical_octet :: "string \<Rightarrow> bool" where
  "canonical_octet f =
     (f \<noteq> [] \<and> list_all is_digit f \<and> (f = ''0'' \<or> hd f \<noteq> CHR ''0'') \<and> decimal_value f \<le> 255)"

definition canonical_quad :: "string \<Rightarrow> bool" where
  "canonical_quad s =
     (length (split_on CHR ''.'' s) = 4 \<and> list_all canonical_octet (split_on CHR ''.'' s))"

section \<open>The network\<close>

text \<open>
  The network is the dictionary read from the JSON topology: router address to its entry,
  an entry holding the router's netmask and its connections, a connection holding the
  link's netmask, interface and administrative distance \<open>ad\<close>, the edge weight. A Python
  dictionary keeps its insertion order and has no key twice: it is an association list.
\<close>

record link =
  link_netmask :: string
  interface :: string
  ad :: int

record router =
  connections :: "(string \<times> link) list"
  netmask :: string
  if_count :: int
  if_prefix :: string

type_synonym network = "(string \<times> router) list"

section \<open>Router locator\<close>

text \<open>
  \<open>find_router_for_ip\<close> goes through the keys of the dictionary in order and returns the
  first router on whose subnet the address is; it returns \<open>None\<close> when there is none.
\<close>

fun find_router_loop :: "network \<Rightarrow> string list \<Rightarrow> string \<Rightarrow> error + string option" where
  "find_router_loop routers [] ip = Inr None"
| "find_router_loop routers (r # rest) ip =
     (case map_of routers r of
        None \<Rightarrow> Inl KeyError
      | Some info \<Rightarrow>
          (case ips_same_subnet ip r (netmask info) of
             Inl e \<Rightarrow> Inl e
           | Inr same \<Rightarrow> if same then Inr (Some r) else find_router_loop routers rest ip))"

definition find_router_for_ip :: "network \<Rightarrow> string \<Rightarrow> error + string option" where
  "find_router_for_ip routers ip = find_router_loop routers (map fst routers) ip"

section \<open>Shortest path engine\<close>

text \<open>
  A distance is a Python integer or \<open>math.inf\<close>. Comparing an integer with \<open>math.inf\<close> is
  exact. Adding an integer to \<open>math.inf\<close> converts the integer to a float first, which
  raises OverflowError when the integer rounds to 2^1024 or more, that is from
  2^1024 - 2^970 on.
\<close>

datatype dist = Finite int | Infinity

fun dist_less :: "dist \<Rightarrow> dist \<Rightarrow> bool" where
  "dist_less (Finite a) (Finite b) = (a < b)"
| "dist_less (Finite a) Infinity = True"
| "dist_less Infinity b = False"

definition float_limit :: int where
  "float_limit = 2 ^ 1024 - 2 ^ 970"

fun dist_add :: "dist \<Rightarrow> int \<Rightarrow> error + dist" where
  "dist_add (Finite a) w = Inr (Finite (a + w))"
| "dist_add Infinity w = (if float_limit \<le> \<bar>w\<bar> then Inl OverflowError else Inr Infinity)"

text \<open>
  The tables of one search. \<open>distances\<close> is keyed by router, and by \<open>None\<close> when the
  source router is \<open>None\<close>; \<open>previous\<close> maps a router to its predecessor or to \<open>None\<close>.
  The set \<open>unvisited\<close> is kept as the list of its elements. The network is part of the
  state: the search reads it and every statement returns it as it was.
\<close>

record search_state =
  routers :: network
  distances :: "string option \<rightharpoonup> dist"
  unvisited :: "string list"
  previous :: "string \<rightharpoonup> string option"

text \<open>
  \<open>min(unvisited, key=...)\<close>: the keys are read in iteration order, and an element
  replaces the best so far only when its key is smaller, so the first minimal element wins.
\<close>

fun min_loop :: "(string option \<rightharpoonup> dist) \<Rightarrow> string list \<Rightarrow> string \<Rightarrow> dist \<Rightarrow> error + string" where
  "min_loop d [] best bv = Inr best"
| "min_loop d (x # xs) best bv =
     (case d (Some x) of
        None \<Rightarrow> Inl KeyError
      | Some v \<Rightarrow> if dist_less v bv then min_loop d xs x v else min_loop d xs best bv)"

definition py_min :: "(string option \<rightharpoonup> dist) \<Rightarrow> string list \<Rightarrow> error + string" where
  "py_min d xs =
     (case xs of
        [] \<Rightarrow> Inl ValueError
      | x # rest \<Rightarrow> (case d (Some x) of None \<Rightarrow> Inl KeyError | Some v \<Rightarrow> min_loop d rest x v))"

text \<open>
  The inner loop over the connections of the current router: a neighbour that is not
  unvisited is skipped; otherwise the distance through the current router is computed and
  stored, with the predecessor, when it is smaller.
\<close>

fun relax :: "string list \<Rightarrow> string \<Rightarrow> (string \<times> link) list \<Rightarrow>
    (string option \<rightharpoonup> dist) \<times> (string \<rightharpoonup> string option) \<Rightarrow>
    error + (string option \<rightharpoonup> dist) \<times> (string \<rightharpoonup> string option)" where
  "relax unv current_router [] (d, p) = Inr (d, p)"
| "relax unv current_router ((neighbor, dst) # rest) (d, p) =
     (if neighbor \<notin> set unv then relax unv current_router rest (d, p)
      else case d (Some current_router) of
        None \<Rightarrow> Inl KeyError
      | Some dc \<Rightarrow>
          (case dist_add dc (ad dst) of
             Inl e \<Rightarrow> Inl e
           | Inr new_distance \<Rightarrow>
               (case d (Some neighbor) of
                  None \<Rightarrow> Inl KeyError
                | Some dn \<Rightarrow>
                    if dist_less new_distance dn
                    then relax unv current_router rest
                           (d(Some neighbor \<mapsto> new_distance), p(neighbor \<mapsto> Some current_router))
                    else relax unv current_router rest (d, p))))"

text \<open>
  The main loop. Python leaves the iteration order of a set open; \<open>set_iter\<close> gives the
  order in which the set with the listed elements is iterated, and the theorems below hold
  for every such order. \<open>unvisited.remove\<close> raises KeyError on an element that is not in
  the set.
\<close>

function main_loop :: "(string list \<Rightarrow> string list) \<Rightarrow> string option \<Rightarrow> search_state \<Rightarrow>
    error + search_state" where
  "main_loop set_iter dest_router st =
     (if unvisited st = [] then Inr st
      else case py_min (distances st) (set_iter (unvisited st)) of
        Inl e \<Rightarrow> Inl e
      | Inr current_router \<Rightarrow>
          if Some current_router = dest_router then Inr st
          else if current_router \<notin> set (unvisited st) then Inl KeyError
          else
            (case map_of (routers st) current_router of
               None \<Rightarrow> Inl KeyError
             | Some info \<Rightarrow>
                 (case relax (removeAll current_router (unvisited st)) current_router
                         (connections info) (distances st, previous st) of
                    Inl e \<Rightarrow> Inl e
                  | Inr (d, p) \<Rightarrow>
                      main_loop set_iter dest_router
                        (st\<lparr>unvisited := removeAll current_router (unvisited st),
                            distances := d, previous := p\<rparr>))))"
  by pat_completeness auto
termination
proof (relation "measure (\<lambda>(set_iter, dest_router, st). length (unvisited st))")
  show "wf (measure (\<lambda>(set_iter, dest_router, st). length (unvisited st)))" by simp
next
  fix set_iter :: "string list \<Rightarrow> string list" and dest_router :: "string option"
    and st :: search_state and current_router :: string
    and d :: "string option \<rightharpoonup> dist" and p :: "string \<rightharpoonup> string option"
  assume "\<not> current_router \<notin> set (unvisited st)"
  then have "length (removeAll current_router (unvisited st)) < length (unvisited st)"
    by (simp add: length_removeAll_less)
  then show "((set_iter, dest_router,
        st\<lparr>unvisited := removeAll current_router (unvisited st), distances := d, previous := p\<rparr>),
       (set_iter, dest_router, st))
      \<in> measure (\<lambda>(set_iter, dest_router, st). length (unvisited st))"
    by simp
qed

declare main_loop.simps [simp del]

text \<open>
  The reconstruction loop walks the predecessors from the destination; nothing in the loop
  itself bounds it, so not returning is the value \<open>None\<close>.
\<close>

partial_function (option) walk :: "(string \<rightharpoonup> string option) \<Rightarrow> string option \<Rightarrow> string option \<Rightarrow>
    string option \<Rightarrow> string list \<Rightarrow> (error + string list) option" where
  "walk prev src_router dest_router current_router path =
     (case current_router of
        None \<Rightarrow> Some (Inr path)
      | Some c \<Rightarrow>
          if dest_router = src_router then Some (Inr path)
          else (case prev c of
                  None \<Rightarrow> Some (Inl KeyError)
                | Some nxt \<Rightarrow> walk prev src_router dest_router nxt (path @ [c])))"

declare walk.simps [code]

definition init_state :: "network \<Rightarrow> string option \<Rightarrow> search_state" where
  "init_state rs src_router =
     \<lparr>routers = rs,
      distances = (map_of (map (\<lambda>r. (Some r, Infinity)) (map fst rs)))(src_router \<mapsto> Finite 0),
      unvisited = map fst rs,
      previous = map_of (map (\<lambda>r. (r, None)) (map fst rs))\<rparr>"

definition run_search :: "(string list \<Rightarrow> string list) \<Rightarrow> network \<Rightarrow> string option \<Rightarrow>
    string option \<Rightarrow> error + search_state" where
  "run_search set_iter rs src_router dest_router =
     main_loop set_iter dest_router (init_state rs src_router)"

definition get_shortest_path :: "(string list \<Rightarrow> string list) \<Rightarrow> network \<Rightarrow> string option \<Rightarrow>
    string option \<Rightarrow> (error + string list) option" where
  "get_shortest_path set_iter rs src_router dest_router =
     (case run_search set_iter rs src_router dest_router of
        Inl e \<Rightarrow> Some (Inl e)
      | Inr st \<Rightarrow>
          (case walk (previous st) src_router dest_router dest_router [] of
             None \<Rightarrow> None
           | Some (Inl e) \<Rightarrow> Some (Inl e)
           | Some (Inr path) \<Rightarrow> Some (Inr (rev path))))"

definition dijkstras_shortest_path :: "(string list \<Rightarrow> string list) \<Rightarrow> network \<Rightarrow> string \<Rightarrow>
    string \<Rightarrow> (error + string list) option" where
  "dijkstras_shortest_path set_iter rs src_ip dest_ip =
     (case find_router_for_ip rs src_ip of
        Inl e \<Rightarrow> Some (Inl e)
      | Inr src_router \<Rightarrow>
          (case find_router_for_ip rs dest_ip of
             Inl e \<Rightarrow> Some (Inl e)
           | Inr dest_router \<Rightarrow> get_shortest_path set_iter rs src_router dest_router))"

text \<open>The order in which the elements were inserted is one iteration order.\<close>

definition insertion_order :: "string list \<Rightarrow> string list" where
  "insertion_order xs = xs"

definition iterates :: "(string list \<Rightarrow> string list) \<Rightarrow> bool" where
  "iterates set_iter = (\<forall>xs. set (set_iter xs) = set xs)"

section \<open>The objects of the program\<close>

text \<open>
  A Python variable holds a reference to an object, and a dictionary, a set or a list is
  changed in place. The store is the list of the objects made so far, an address is a
  position in it, and a new object is put at its end. The network is the nested
  dictionaries read from the JSON topology: the dictionary \<open>routers\<close> refers to one entry
  for each router, an entry refers to the dictionary of its connections, and that
  dictionary refers to one dictionary for each link. The tables of a search are the
  dictionaries \<open>distances\<close> and \<open>previous\<close>, the set \<open>unvisited\<close> and the list \<open>path\<close>.
  The functions of the sections above compute with the contents of these objects; the
  functions of this section are the same statements acting on the objects themselves.
  Strings and numbers cannot be changed and are kept as values. A name that ends in
  \<open>_at\<close> is the address that the variable of that name holds.
\<close>

datatype obj =
    Routers "(string \<times> nat) list"
  | Entry nat string int string
  | Connections "(string \<times> nat) list"
  | Link link
  | Distances "string option \<rightharpoonup> dist"
  | Previous "string \<rightharpoonup> string option"
  | Unvisited "string list"
  | Path "string list"

type_synonym store = "obj list"

text \<open>
  An address beyond the store holds no object. No variable of a Python program holds such
  an address; a statement that is given one, or that finds an object of another kind than
  it needs, raises TypeError.
\<close>

definition fetch :: "store \<Rightarrow> nat \<Rightarrow> obj option" where
  "fetch h a = (if a < length h then Some (h ! a) else None)"

definition alloc :: "obj \<Rightarrow> store \<Rightarrow> nat \<times> store" where
  "alloc ob h = (length h, h @ [ob])"

text \<open>The network that the dictionary at an address holds, when it is one.\<close>

fun load_links :: "store \<Rightarrow> (string \<times> nat) list \<Rightarrow> (string \<times> link) list option" where
  "load_links h [] = Some []"
| "load_links h ((n, a) # rest) =
     (case fetch h a of
        Some (Link l) \<Rightarrow>
          (case load_links h rest of None \<Rightarrow> None | Some ls \<Rightarrow> Some ((n, l) # ls))
      | _ \<Rightarrow> None)"

definition load_entry :: "store \<Rightarrow> nat \<Rightarrow> router option" where
  "load_entry h a =
     (case fetch h a of
        Some (Entry c m k p) \<Rightarrow>
          (case fetch h c of
             Some (Connections kv) \<Rightarrow>
               (case load_links h kv of
                  None \<Rightarrow> None
                | Some cs \<Rightarrow>
                    Some \<lparr>connections = cs, netmask = m, if_count = k, if_prefix = p\<rparr>)
           | _ \<Rightarrow> None)
      | _ \<Rightarrow> None)"

fun load_entries :: "store \<Rightarrow> (string \<times> nat) list \<Rightarrow> network option" where
  "load_entries h [] = Some []"
| "load_entries h ((r, a) # rest) =
     (case load_entry h a of
        None \<Rightarrow> None
      | Some info \<Rightarrow>
          (case load_entries h rest of None \<Rightarrow> None | Some rs \<Rightarrow> Some ((r, info) # rs)))"

definition load_network :: "store \<Rightarrow> nat \<Rightarrow> network option" where
  "load_network h a =
     (case fetch h a of Some (Routers kv) \<Rightarrow> load_entries h kv | _ \<Rightarrow> None)"

text \<open>
  Reading the network: the keys of \<open>routers\<close>, \<open>routers[r]\<close>, \<open>entry['netmask']\<close>,
  \<open>entry['connections'].items()\<close> and \<open>dst['ad']\<close>.
\<close>

definition routers_keys :: "store \<Rightarrow> nat \<Rightarrow> error + string list" where
  "routers_keys h a =
     (case fetch h a of Some (Routers kv) \<Rightarrow> Inr (map fst kv) | _ \<Rightarrow> Inl TypeError)"

definition routers_item :: "store \<Rightarrow> nat \<Rightarrow> string \<Rightarrow> error + nat" where
  "routers_item h a r =
     (case fetch h a of
        Some (Routers kv) \<Rightarrow> (case map_of kv r of None \<Rightarrow> Inl KeyError | Some e \<Rightarrow> Inr e)
      | _ \<Rightarrow> Inl TypeError)"

definition entry_netmask :: "store \<Rightarrow> nat \<Rightarrow> error + string" where
  "entry_netmask h e =
     (case fetch h e of Some (Entry c m k p) \<Rightarrow> Inr m | _ \<Rightarrow> Inl TypeError)"

definition entry_items :: "store \<Rightarrow> nat \<Rightarrow> error + (string \<times> nat) list" where
  "entry_items h e =
     (case fetch h e of
        Some (Entry c m k p) \<Rightarrow>
          (case fetch h c of Some (Connections kv) \<Rightarrow> Inr kv | _ \<Rightarrow> Inl TypeError)
      | _ \<Rightarrow> Inl TypeError)"

definition link_ad :: "store \<Rightarrow> nat \<Rightarrow> error + int" where
  "link_ad h a = (case fetch h a of Some (Link l) \<Rightarrow> Inr (ad l) | _ \<Rightarrow> Inl TypeError)"

text \<open>
  Reading and changing the tables: \<open>distances[k]\<close>, \<open>distances[k] = v\<close>,
  \<open>previous[k]\<close>, \<open>previous[k] = v\<close>, the elements of \<open>unvisited\<close>,
  \<open>unvisited.remove(x)\<close>, \<open>path.append(x)\<close>, \<open>path.reverse()\<close> and the elements of
  \<open>path\<close>. An assignment and a method call change the object at the address and no
  other.
\<close>

definition get_distance :: "store \<Rightarrow> nat \<Rightarrow> string option \<Rightarrow> error + dist" where
  "get_distance h d k =
     (case fetch h d of
        Some (Distances m) \<Rightarrow> (case m k of None \<Rightarrow> Inl KeyError | Some v \<Rightarrow> Inr v)
      | _ \<Rightarrow> Inl TypeError)"

definition set_distance :: "store \<Rightarrow> nat \<Rightarrow> string option \<Rightarrow> dist \<Rightarrow> error + store" where
  "set_distance h d k v =
     (case fetch h d of
        Some (Distances m) \<Rightarrow> Inr (h[d := Distances (m(k \<mapsto> v))])
      | _ \<Rightarrow> Inl TypeError)"

definition get_previous :: "store \<Rightarrow> nat \<Rightarrow> string \<Rightarrow> error + string option" where
  "get_previous h p k =
     (case fetch h p of
        Some (Previous m) \<Rightarrow> (case m k of None \<Rightarrow> Inl KeyError | Some v \<Rightarrow> Inr v)
      | _ \<Rightarrow> Inl TypeError)"

definition set_previous :: "store \<Rightarrow> nat \<Rightarrow> string \<Rightarrow> string option \<Rightarrow> error + store" where
  "set_previous h p k v =
     (case fetch h p of
        Some (Previous m) \<Rightarrow> Inr (h[p := Previous (m(k \<mapsto> v))])
      | _ \<Rightarrow> Inl TypeError)"

definition get_unvisited :: "store \<Rightarrow> nat \<Rightarrow> error + string list" where
  "get_unvisited h u =
     (case fetch h u of Some (Unvisited xs) \<Rightarrow> Inr xs | _ \<Rightarrow> Inl TypeError)"

definition remove_unvisited :: "store \<Rightarrow> nat \<Rightarrow> string \<Rightarrow> error + store" where
  "remove_unvisited h u x =
     (case fetch h u of
        Some (Unvisited xs) \<Rightarrow>
          if x \<in> set xs then Inr (h[u := Unvisited (removeAll x xs)]) else Inl KeyError
      | _ \<Rightarrow> Inl TypeError)"

definition append_path :: "store \<Rightarrow> nat \<Rightarrow> string \<Rightarrow> error + store" where
  "append_path h a x =
     (case fetch h a of
        Some (Path xs) \<Rightarrow> Inr (h[a := Path (xs @ [x])])
      | _ \<Rightarrow> Inl TypeError)"

definition reverse_path :: "store \<Rightarrow> nat \<Rightarrow> error + store" where
  "reverse_path h a =
     (case fetch h a of
        Some (Path xs) \<Rightarrow> Inr (h[a := Path (rev xs)])
      | _ \<Rightarrow> Inl TypeError)"

definition get_path :: "store \<Rightarrow> nat \<Rightarrow> error + string list" where
  "get_path h a = (case fetch h a of Some (Path xs) \<Rightarrow> Inr xs | _ \<Rightarrow> Inl TypeError)"

text \<open>
  \<open>find_router_for_ip\<close> on the dictionary at the address \<open>routers\<close>. It reads and
  changes nothing.
\<close>

fun find_router_loop_store :: "store \<Rightarrow> nat \<Rightarrow> string list \<Rightarrow> string \<Rightarrow> error + string option" where
  "find_router_loop_store h routers_at [] ip = Inr None"
| "find_router_loop_store h routers_at (r # rest) ip =
     (case routers_item h routers_at r of
        Inl e \<Rightarrow> Inl e
      | Inr entry \<Rightarrow>
          (case entry_netmask h entry of
             Inl e \<Rightarrow> Inl e
           | Inr slash \<Rightarrow>
               (case ips_same_subnet ip r slash of
                  Inl e \<Rightarrow> Inl e
                | Inr same \<Rightarrow>
                    if same then Inr (Some r) else find_router_loop_store h routers_at rest ip)))"

definition find_router_for_ip_store :: "store \<Rightarrow> nat \<Rightarrow> string \<Rightarrow> error + string option" where
  "find_router_for_ip_store h routers_at ip =
     (case routers_keys h routers_at of
        Inl e \<Rightarrow> Inl e
      | Inr keys \<Rightarrow> find_router_loop_store h routers_at keys ip)"

text \<open>
  \<open>min(unvisited, key=lambda router: distances[router])\<close> reads the set and the
  dictionary.
\<close>

definition min_unvisited :: "(string list \<Rightarrow> string list) \<Rightarrow> store \<Rightarrow> nat \<Rightarrow> nat \<Rightarrow> error + string" where
  "min_unvisited set_iter h unvisited_at distances_at =
     (case fetch h unvisited_at of
        Some (Unvisited xs) \<Rightarrow>
          (case fetch h distances_at of
             Some (Distances m) \<Rightarrow> py_min m (set_iter xs)
           | _ \<Rightarrow> Inl TypeError)
      | _ \<Rightarrow> Inl TypeError)"

text \<open>
  The inner loop over the items of the connections of the current router. The store it
  returns with an exception is the store at the time of the exception.
\<close>

fun relax_store :: "nat \<Rightarrow> nat \<Rightarrow> nat \<Rightarrow> string \<Rightarrow> (string \<times> nat) list \<Rightarrow> store \<Rightarrow>
    (error + unit) \<times> store" where
  "relax_store distances_at unvisited_at previous_at current_router [] h = (Inr (), h)"
| "relax_store distances_at unvisited_at previous_at current_router ((neighbor, dst) # rest) h =
     (case get_unvisited h unvisited_at of
        Inl e \<Rightarrow> (Inl e, h)
      | Inr unv \<Rightarrow>
          if neighbor \<notin> set unv
          then relax_store distances_at unvisited_at previous_at current_router rest h
          else
            (case get_distance h distances_at (Some current_router) of
               Inl e \<Rightarrow> (Inl e, h)
             | Inr dc \<Rightarrow>
                 (case link_ad h dst of
                    Inl e \<Rightarrow> (Inl e, h)
                  | Inr w \<Rightarrow>
                      (case dist_add dc w of
                         Inl e \<Rightarrow> (Inl e, h)
                       | Inr new_distance \<Rightarrow>
                           (case get_distance h distances_at (Some neighbor) of
                              Inl e \<Rightarrow> (Inl e, h)
                            | Inr dn \<Rightarrow>
                                if dist_less new_distance dn
                                then
                                  (case set_distance h distances_at (Some neighbor) new_distance of
                                     Inl e \<Rightarrow> (Inl e, h)
                                   | Inr h1 \<Rightarrow>
                                       (case set_previous h1 previous_at neighbor
                                               (Some current_router) of
                                          Inl e \<Rightarrow> (Inl e, h1)
                                        | Inr h2 \<Rightarrow>
                                            relax_store distances_at unvisited_at previous_at
                                              current_router rest h2))
                                else relax_store distances_at unvisited_at previous_at
                                       current_router rest h)))))"

text \<open>The main loop on the objects.\<close>

partial_function (option) main_loop_store :: "(string list \<Rightarrow> string list) \<Rightarrow> nat \<Rightarrow> nat \<Rightarrow> nat \<Rightarrow>
    nat \<Rightarrow> string option \<Rightarrow> store \<Rightarrow> ((error + unit) \<times> store) option" where
  "main_loop_store set_iter routers_at distances_at unvisited_at previous_at dest_router h =
     (case get_unvisited h unvisited_at of
        Inl e \<Rightarrow> Some (Inl e, h)
      | Inr unv \<Rightarrow>
          if unv = [] then Some (Inr (), h)
          else
            (case min_unvisited set_iter h unvisited_at distances_at of
               Inl e \<Rightarrow> Some (Inl e, h)
             | Inr current_router \<Rightarrow>
                 if Some current_router = dest_router then Some (Inr (), h)
                 else
                   (case remove_unvisited h unvisited_at current_router of
                      Inl e \<Rightarrow> Some (Inl e, h)
                    | Inr h1 \<Rightarrow>
                        (case routers_item h1 routers_at current_router of
                           Inl e \<Rightarrow> Some (Inl e, h1)
                         | Inr entry \<Rightarrow>
                             (case entry_items h1 entry of
                                Inl e \<Rightarrow> Some (Inl e, h1)
                              | Inr items \<Rightarrow>
                                  (case relax_store distances_at unvisited_at previous_at
                                          current_router items h1 of
                                     (Inl e, h2) \<Rightarrow> Some (Inl e, h2)
                                   | (Inr ok, h2) \<Rightarrow>
                                       main_loop_store set_iter routers_at distances_at unvisited_at
                                         previous_at dest_router h2))))))"

declare main_loop_store.simps [code]

text \<open>The reconstruction loop on the objects.\<close>

partial_function (option) walk_store :: "nat \<Rightarrow> nat \<Rightarrow> string option \<Rightarrow> string option \<Rightarrow>
    string option \<Rightarrow> store \<Rightarrow> ((error + unit) \<times> store) option" where
  "walk_store previous_at path_at src_router dest_router current_router h =
     (case current_router of
        None \<Rightarrow> Some (Inr (), h)
      | Some c \<Rightarrow>
          if dest_router = src_router then Some (Inr (), h)
          else
            (case append_path h path_at c of
               Inl e \<Rightarrow> Some (Inl e, h)
             | Inr h1 \<Rightarrow>
                 (case get_previous h1 previous_at c of
                    Inl e \<Rightarrow> Some (Inl e, h1)
                  | Inr nxt \<Rightarrow> walk_store previous_at path_at src_router dest_router nxt h1)))"

declare walk_store.simps [code]

text \<open>
  \<open>get_shortest_path\<close> on the objects, in three parts. The statements before the
  main loop: the two dictionary comprehensions and \<open>set(routers.keys())\<close> make new
  objects from the keys of \<open>routers\<close>, and \<open>distances[src_router] = 0\<close> changes
  the first of them.
\<close>

definition init_store :: "nat \<Rightarrow> string option \<Rightarrow> store \<Rightarrow> (error + nat \<times> nat \<times> nat) \<times> store" where
  "init_store routers_at src_router h =
     (case routers_keys h routers_at of
        Inl e \<Rightarrow> (Inl e, h)
      | Inr keys \<Rightarrow>
          (case alloc (Distances (map_of (map (\<lambda>r. (Some r, Infinity)) keys))) h of
             (distances_at, h1) \<Rightarrow>
               (case set_distance h1 distances_at src_router (Finite 0) of
                  Inl e \<Rightarrow> (Inl e, h1)
                | Inr h2 \<Rightarrow>
                    (case alloc (Unvisited keys) h2 of
                       (unvisited_at, h3) \<Rightarrow>
                         (case alloc (Previous (map_of (map (\<lambda>r. (r, None)) keys))) h3 of
                            (previous_at, h4) \<Rightarrow>
                              (Inr (distances_at, unvisited_at, previous_at), h4))))))"

text \<open>
  The statements after the main loop: \<open>path = []\<close> makes a new list, the
  reconstruction loop appends to it, \<open>path.reverse()\<close> reverses it in place, and the
  function returns its address.
\<close>

definition reconstruct_store :: "nat \<Rightarrow> string option \<Rightarrow> string option \<Rightarrow> store \<Rightarrow>
    ((error + nat) \<times> store) option" where
  "reconstruct_store previous_at src_router dest_router h =
     (case alloc (Path []) h of
        (path_at, h1) \<Rightarrow>
          (case walk_store previous_at path_at src_router dest_router dest_router h1 of
             None \<Rightarrow> None
           | Some (Inl e, h2) \<Rightarrow> Some (Inl e, h2)
           | Some (Inr ok, h2) \<Rightarrow>
               (case reverse_path h2 path_at of
                  Inl e \<Rightarrow> Some (Inl e, h2)
                | Inr h3 \<Rightarrow> Some (Inr path_at, h3))))"

definition get_shortest_path_store :: "(string list \<Rightarrow> string list) \<Rightarrow> nat \<Rightarrow> string option \<Rightarrow>
    string option \<Rightarrow> store \<Rightarrow> ((error + nat) \<times> store) option" where
  "get_shortest_path_store set_iter routers_at src_router dest_router h =
     (case init_store routers_at src_router h of
        (Inl e, h1) \<Rightarrow> Some (Inl e, h1)
      | (Inr (distances_at, unvisited_at, previous_at), h1) \<Rightarrow>
          (case main_loop_store set_iter routers_at distances_at unvisited_at previous_at
                  dest_router h1 of
             None \<Rightarrow> None
           | Some (Inl e, h2) \<Rightarrow> Some (Inl e, h2)
           | Some (Inr ok, h2) \<Rightarrow> reconstruct_store previous_at src_router dest_router h2))"

text \<open>\<open>dijkstras_shortest_path\<close> on the objects.\<close>

definition dijkstras_shortest_path_store :: "(string list \<Rightarrow> string list) \<Rightarrow> nat \<Rightarrow> string \<Rightarrow>
    string \<Rightarrow> store \<Rightarrow> ((error + nat) \<times> store) option" where
  "dijkstras_shortest_path_store set_iter routers_at src_ip dest_ip h =
     (case find_router_for_ip_store h routers_at src_ip of
        Inl e \<Rightarrow> Some (Inl e, h)
      | Inr src_router \<Rightarrow>
          (case find_router_for_ip_store h routers_at dest_ip of
             Inl e \<Rightarrow> Some (Inl e, h)
           | Inr dest_router \<Rightarrow>
               get_shortest_path_store set_iter routers_at src_router dest_router h))"

text \<open>
  What a call hands to its caller: the exception, or the elements of the list whose
  address it returns.
\<close>

definition returned :: "(error + nat) \<times> store \<Rightarrow> error + string list" where
  "returned out =
     (case out of
        (Inl e, h) \<Rightarrow> Inl e
      | (Inr a, h) \<Rightarrow> get_path h a)"

section \<open>Paths of the network and well-formed networks\<close>

definition router_ids :: "network \<Rightarrow> string list" where
  "router_ids rs = map fst rs"

text \<open>The weight of the link from \<open>u\<close> to \<open>v\<close>, both routers of the network.\<close>

definition link_weight :: "network \<Rightarrow> string \<Rightarrow> string \<Rightarrow> int option" where
  "link_weight rs u v =
     (case map_of rs u of
        None \<Rightarrow> None
      | Some info \<Rightarrow>
          if v \<in> set (router_ids rs) then map_option ad (map_of (connections info) v) else None)"

fun valid_path :: "network \<Rightarrow> string list \<Rightarrow> bool" where
  "valid_path rs [] = False"
| "valid_path rs [u] = (u \<in> set (router_ids rs))"
| "valid_path rs (u # v # rest) = (link_weight rs u v \<noteq> None \<and> valid_path rs (v # rest))"

fun path_weight :: "network \<Rightarrow> string list \<Rightarrow> int" where
  "path_weight rs (u # v # rest) =
     (case link_weight rs u v of None \<Rightarrow> 0 | Some w \<Rightarrow> w) + path_weight rs (v # rest)"
| "path_weight rs [u] = 0"
| "path_weight rs [] = 0"

definition is_path :: "network \<Rightarrow> string \<Rightarrow> string \<Rightarrow> string list \<Rightarrow> bool" where
  "is_path rs s t p = (valid_path rs p \<and> hd p = s \<and> last p = t)"

text \<open>\<open>d\<close> is the least total weight of a directed path from \<open>s\<close> to \<open>t\<close>.\<close>

definition min_weight :: "network \<Rightarrow> string \<Rightarrow> string \<Rightarrow> int \<Rightarrow> bool" where
  "min_weight rs s t d =
     ((\<exists>p. is_path rs s t p \<and> path_weight rs p = d) \<and>
      (\<forall>p. is_path rs s t p \<longrightarrow> d \<le> path_weight rs p))"

text \<open>
  Following the predecessor table backward from the last element of \<open>p\<close> gives \<open>p\<close>
  reversed and ends at its first element, which has no predecessor.
\<close>

fun linked :: "(string \<rightharpoonup> string option) \<Rightarrow> string list \<Rightarrow> bool" where
  "linked prev (u # v # rest) = (prev v = Some (Some u) \<and> linked prev (v # rest))"
| "linked prev [u] = True"
| "linked prev [] = True"

definition pred_chain :: "(string \<rightharpoonup> string option) \<Rightarrow> string list \<Rightarrow> bool" where
  "pred_chain prev p = (p \<noteq> [] \<and> prev (hd p) = Some None \<and> linked prev p)"

text \<open>
  A dictionary has no key twice, in the network and in each router's connections, and the
  weights are not negative.
\<close>

definition wf_graph :: "network \<Rightarrow> bool" where
  "wf_graph rs =
     (distinct (map fst rs) \<and>
      list_all (\<lambda>(r, info). distinct (map fst (connections info)) \<and>
                 list_all (\<lambda>(n, l). 0 \<le> ad l) (connections info)) rs)"

text \<open>Every weight is an integer that Python converts to a float.\<close>

definition float_weights :: "network \<Rightarrow> bool" where
  "float_weights rs =
     list_all (\<lambda>(r, info). list_all (\<lambda>(n, l). \<bar>ad l\<bar> < float_limit) (connections info)) rs"

text \<open>Every router address is a canonical dotted quad and every netmask a prefix length 0 to 32.\<close>

definition valid_netmask :: "string \<Rightarrow> bool" where
  "valid_netmask m = (\<exists>n\<in>set [0..32]. m = ''/'' @ py_str n)"

definition wf_addressing :: "network \<Rightarrow> bool" where
  "wf_addressing rs = list_all (\<lambda>(r, info). canonical_quad r \<and> valid_netmask (netmask info)) rs"

section \<open>Definitions used in the proofs\<close>

text \<open>
  What a successful run of the inner loop leaves in the two tables, the parts of the
  invariant of the main loop, one step of the main loop as a relation between states, and
  the example networks.
\<close>

definition relax_dist :: "dist \<Rightarrow> string list \<Rightarrow> (string \<times> link) list \<Rightarrow>
    (string option \<rightharpoonup> dist) \<Rightarrow> (string option \<rightharpoonup> dist)" where
  "relax_dist dc unv cs d =
     (\<lambda>k. case k of
        None \<Rightarrow> d None
      | Some v \<Rightarrow>
          (case map_of cs v of
             None \<Rightarrow> d k
           | Some l \<Rightarrow>
               (case dist_add dc (ad l) of
                  Inl e \<Rightarrow> d k
                | Inr nd \<Rightarrow>
                    (case d k of
                       None \<Rightarrow> None
                     | Some dn \<Rightarrow> if v \<in> set unv \<and> dist_less nd dn then Some nd else Some dn))))"

definition relax_prev :: "dist \<Rightarrow> string list \<Rightarrow> string \<Rightarrow> (string \<times> link) list \<Rightarrow>
    (string option \<rightharpoonup> dist) \<Rightarrow> (string \<rightharpoonup> string option) \<Rightarrow> (string \<rightharpoonup> string option)" where
  "relax_prev dc unv cur cs d p =
     (\<lambda>v. case map_of cs v of
        None \<Rightarrow> p v
      | Some l \<Rightarrow>
          (case dist_add dc (ad l) of
             Inl e \<Rightarrow> p v
           | Inr nd \<Rightarrow>
               (case d (Some v) of
                  None \<Rightarrow> p v
                | Some dn \<Rightarrow> if v \<in> set unv \<and> dist_less nd dn then Some (Some cur) else p v)))"

definition inv_tables :: "network \<Rightarrow> search_state \<Rightarrow> bool" where
  "inv_tables rs st =
     (routers st = rs \<and> set (unvisited st) \<subseteq> set (router_ids rs) \<and>
      (\<forall>k\<in>set (router_ids rs). distances st (Some k) \<noteq> None \<and> previous st k \<noteq> None))"

definition inv_source :: "network \<Rightarrow> string option \<Rightarrow> search_state \<Rightarrow> bool" where
  "inv_source rs src st =
     (\<forall>s. src = Some s \<and> s \<in> set (router_ids rs) \<longrightarrow>
        distances st (Some s) = Some (Finite 0) \<and> previous st s = Some None)"

definition inv_nonneg :: "network \<Rightarrow> search_state \<Rightarrow> bool" where
  "inv_nonneg rs st =
     (\<forall>v\<in>set (router_ids rs). \<forall>a. distances st (Some v) = Some (Finite a) \<longrightarrow> 0 \<le> a)"

definition inv_pred :: "network \<Rightarrow> search_state \<Rightarrow> bool" where
  "inv_pred rs st =
     (\<forall>v\<in>set (router_ids rs). \<forall>u. previous st v = Some (Some u) \<longrightarrow>
        u \<in> set (router_ids rs) \<and> u \<notin> set (unvisited st) \<and>
        (\<exists>du w. distances st (Some u) = Some (Finite du) \<and> link_weight rs u v = Some w \<and>
           distances st (Some v) = Some (Finite (du + w))))"

definition inv_unreached :: "network \<Rightarrow> string option \<Rightarrow> search_state \<Rightarrow> bool" where
  "inv_unreached rs src st =
     (\<forall>v\<in>set (router_ids rs). src \<noteq> Some v \<longrightarrow> previous st v = Some None \<longrightarrow>
        distances st (Some v) = Some Infinity)"

definition inv_chain :: "network \<Rightarrow> string option \<Rightarrow> search_state \<Rightarrow> bool" where
  "inv_chain rs src st =
     (\<forall>v\<in>set (router_ids rs). v \<notin> set (unvisited st) \<longrightarrow>
        (\<forall>a. distances st (Some v) = Some (Finite a) \<longrightarrow>
           (\<exists>p s. src = Some s \<and> pred_chain (previous st) p \<and> is_path rs s v p \<and>
              path_weight rs p = a \<and> set p \<inter> set (unvisited st) = {})))"

definition inv_edges :: "network \<Rightarrow> search_state \<Rightarrow> bool" where
  "inv_edges rs st =
     (\<forall>u\<in>set (router_ids rs). u \<notin> set (unvisited st) \<longrightarrow>
        (\<forall>v du w. distances st (Some u) = Some (Finite du) \<longrightarrow> link_weight rs u v = Some w \<longrightarrow>
           (\<exists>dv. distances st (Some v) = Some (Finite dv) \<and> dv \<le> du + w)))"

definition inv_order :: "network \<Rightarrow> search_state \<Rightarrow> bool" where
  "inv_order rs st =
     (\<forall>u\<in>set (router_ids rs). u \<notin> set (unvisited st) \<longrightarrow>
        (\<forall>v\<in>set (unvisited st). \<forall>du dv. distances st (Some u) = Some du \<longrightarrow>
           distances st (Some v) = Some dv \<longrightarrow> \<not> dist_less dv du))"

definition inv_optimal :: "network \<Rightarrow> string option \<Rightarrow> search_state \<Rightarrow> bool" where
  "inv_optimal rs src st =
     (\<forall>u\<in>set (router_ids rs). u \<notin> set (unvisited st) \<longrightarrow>
        (\<forall>s p. src = Some s \<longrightarrow> is_path rs s u p \<longrightarrow>
           (\<exists>du. distances st (Some u) = Some (Finite du) \<and> du \<le> path_weight rs p)))"

definition inv_dest :: "network \<Rightarrow> string option \<Rightarrow> search_state \<Rightarrow> bool" where
  "inv_dest rs dest st =
     (\<forall>t. dest = Some t \<and> t \<in> set (router_ids rs) \<longrightarrow> t \<in> set (unvisited st))"

definition search_inv :: "network \<Rightarrow> string option \<Rightarrow> string option \<Rightarrow> search_state \<Rightarrow> bool" where
  "search_inv rs src dest st =
     (inv_tables rs st \<and> inv_source rs src st \<and> inv_nonneg rs st \<and> inv_pred rs st \<and>
      inv_unreached rs src st \<and> inv_chain rs src st \<and> inv_edges rs st \<and> inv_order rs st \<and>
      inv_optimal rs src st \<and> inv_dest rs dest st)"

definition finished :: "(string list \<Rightarrow> string list) \<Rightarrow> string option \<Rightarrow> search_state \<Rightarrow> bool" where
  "finished set_iter dest st =
     (unvisited st = [] \<or>
      (\<exists>cur. py_min (distances st) (set_iter (unvisited st)) = Inr cur \<and> Some cur = dest))"

definition search_step :: "network \<Rightarrow> string \<Rightarrow> search_state \<Rightarrow> search_state \<Rightarrow> bool" where
  "search_step rs cur st st' =
     (cur \<in> set (unvisited st) \<and>
      (\<exists>dc info.
         distances st (Some cur) = Some dc \<and>
         (\<forall>x\<in>set (unvisited st). \<forall>v. distances st (Some x) = Some v \<longrightarrow> \<not> dist_less v dc) \<and>
         map_of rs cur = Some info \<and>
         routers st' = routers st \<and>
         unvisited st' = removeAll cur (unvisited st) \<and>
         distances st' =
           relax_dist dc (removeAll cur (unvisited st)) (connections info) (distances st) \<and>
         previous st' =
           relax_prev dc (removeAll cur (unvisited st)) cur (connections info) (distances st)
             (previous st)))"

definition example_link :: "int \<Rightarrow> link" where
  "example_link w = \<lparr>link_netmask = ''/24'', interface = ''en0'', ad = w\<rparr>"

definition example_router :: "(string \<times> link) list \<Rightarrow> router" where
  "example_router cs = \<lparr>connections = cs, netmask = ''/24'', if_count = 2, if_prefix = ''en''\<rparr>"

definition three_routers :: network where
  "three_routers =
     [(''10.0.1.1'', example_router [(''10.0.2.1'', example_link 10), (''10.0.3.1'', example_link 20)]),
      (''10.0.2.1'', example_router [(''10.0.1.1'', example_link 10), (''10.0.3.1'', example_link 5)]),
      (''10.0.3.1'', example_router [(''10.0.2.1'', example_link 5), (''10.0.1.1'', example_link 20)])]"

definition two_islands :: network where
  "two_islands = [(''10.0.1.1'', example_router []), (''10.0.2.1'', example_router [])]"

definition heavy_links :: network where
  "heavy_links =
     [(''10.0.1.1'', example_router []),
      (''10.0.2.1'', example_router [(''10.0.3.1'', example_link (2 ^ 1024))]),
      (''10.0.3.1'', example_router [(''10.0.2.1'', example_link (2 ^ 1024))])]"

text \<open>The three routers as objects: the dictionary \<open>routers\<close> is at address 12.\<close>

definition three_routers_store :: store where
  "three_routers_store =
     [Link (example_link 10), Link (example_link 20),
      Connections [(''10.0.2.1'', 0), (''10.0.3.1'', 1)],
      Entry 2 ''/24'' 2 ''en'',
      Link (example_link 10), Link (example_link 5),
      Connections [(''10.0.1.1'', 4), (''10.0.3.1'', 5)],
      Entry 6 ''/24'' 2 ''en'',
      Link (example_link 5), Link (example_link 20),
      Connections [(''10.0.2.1'', 8), (''10.0.1.1'', 9)],
      Entry 10 ''/24'' 2 ''en'',
      Routers [(''10.0.1.1'', 3), (''10.0.2.1'', 7), (''10.0.3.1'', 11)]]"

text \<open>
  The tables of a search in a store that has kept the store \<open>h0\<close> of before the
  search: the three addresses are beyond \<open>h0\<close> and hold the three tables.
\<close>

definition holds_tables :: "store \<Rightarrow> store \<Rightarrow> nat \<Rightarrow> nat \<Rightarrow> nat \<Rightarrow>
    (string option \<rightharpoonup> dist) \<Rightarrow> string list \<Rightarrow> (string \<rightharpoonup> string option) \<Rightarrow> bool" where
  "holds_tables h0 h d u p dm unv pm =
     (take (length h0) h = h0 \<and> length h0 \<le> d \<and> length h0 \<le> u \<and> length h0 \<le> p \<and>
      fetch h d = Some (Distances dm) \<and> fetch h u = Some (Unvisited unv) \<and>
      fetch h p = Some (Previous pm))"

section \<open>The built-ins: reading and writing decimal numbers\<close>

lemma digit_char_is_digit: "n < 10 \<Longrightarrow> is_digit (digit_char n)"
proof -
  assume "n < 10"
  then have "n \<in> {0,1,2,3,4,5,6,7,8,9}" by auto
  then show ?thesis by (auto simp: is_digit_def digit_char_def)
qed

lemma digit_val_digit_char: "n < 10 \<Longrightarrow> digit_val (digit_char n) = int n"
proof -
  assume "n < 10"
  then have "n \<in> {0,1,2,3,4,5,6,7,8,9}" by auto
  then show ?thesis by (auto simp: digit_val_def digit_char_def)
qed

lemma is_digit_not_space: "is_digit c \<Longrightarrow> \<not> py_isspace c"
  by (auto simp: is_digit_def py_isspace_def)

lemma is_digit_not_sign: "is_digit c \<Longrightarrow> c \<noteq> CHR ''-'' \<and> c \<noteq> CHR ''+'' \<and> c \<noteq> CHR ''.'' \<and> c \<noteq> CHR ''/'' \<and> c \<noteq> CHR ''_''"
  by (auto simp: is_digit_def)

lemma str_nat_digits: "list_all is_digit (str_nat n)"
proof (induction n rule: str_nat.induct)
  case (1 n)
  show ?case
  proof (cases "n < 10")
    case True
    then show ?thesis by (simp add: str_nat.simps [of n] digit_char_is_digit)
  next
    case False
    with 1 show ?thesis by (simp add: str_nat.simps [of n] digit_char_is_digit)
  qed
qed

lemma str_nat_nonempty: "str_nat n \<noteq> []"
  by (simp add: str_nat.simps [of n])

lemma digits_value_all_digits:
  "list_all is_digit xs \<Longrightarrow> digits_value acc xs = Some (foldl dec_step acc xs)"
  by (induction xs arbitrary: acc) (simp_all add: dec_step_def)

lemma foldl_str_nat: "foldl dec_step 0 (str_nat n) = int n"
proof (induction n rule: str_nat.induct)
  case (1 n)
  show ?case
  proof (cases "n < 10")
    case True
    then show ?thesis by (simp add: str_nat.simps [of n] dec_step_def digit_val_digit_char)
  next
    case False
    with 1 have ih: "foldl dec_step 0 (str_nat (n div 10)) = int (n div 10)" by simp
    have "foldl dec_step 0 (str_nat n) =
        dec_step (foldl dec_step 0 (str_nat (n div 10))) (digit_char (n mod 10))"
      using False by (simp add: str_nat.simps [of n])
    also have "\<dots> = 10 * int (n div 10) + int (n mod 10)"
      unfolding ih by (simp add: dec_step_def digit_val_digit_char)
    also have "\<dots> = int n" by (simp add: zdiv_int zmod_int)
    finally show ?thesis .
  qed
qed

lemma unsigned_literal_all_digits:
  "list_all is_digit xs \<Longrightarrow> xs \<noteq> [] \<Longrightarrow> unsigned_literal xs = Some (foldl dec_step 0 xs)"
  by (cases xs) (simp_all add: unsigned_literal_def digits_value_all_digits dec_step_def)

lemma unsigned_literal_str_nat: "unsigned_literal (str_nat n) = Some (int n)"
  by (simp add: unsigned_literal_all_digits str_nat_digits str_nat_nonempty foldl_str_nat)

lemma strip_id:
  assumes "s \<noteq> []" "\<not> py_isspace (hd s)" "\<not> py_isspace (last s)"
  shows "strip s = s"
proof -
  from assms have a: "dropWhile py_isspace s = s" by (cases s) simp_all
  from assms have "rev s \<noteq> []" "\<not> py_isspace (hd (rev s))" by (simp_all add: hd_rev)
  then have "dropWhile py_isspace (rev s) = rev s" by (cases "rev s") simp_all
  with a show ?thesis by (simp add: strip_def)
qed

lemma strip_digits: "list_all is_digit s \<Longrightarrow> s \<noteq> [] \<Longrightarrow> strip s = s"
  by (rule strip_id) (auto simp: list_all_iff is_digit_not_space)

lemma py_int_all_digits:
  assumes "list_all is_digit s" "s \<noteq> []"
  shows "py_int s = Inr (foldl dec_step 0 s)"
proof -
  obtain c r where s: "s = c # r" using assms(2) by (cases s) auto
  with assms have "is_digit c" by simp
  then have "c \<noteq> CHR ''-''" "c \<noteq> CHR ''+''" using is_digit_not_sign by auto
  then show ?thesis
    using assms s by (simp add: py_int_def strip_digits unsigned_literal_all_digits)
qed

lemma py_int_py_str: "py_int (py_str i) = Inr i"
proof (cases "i < 0")
  case False
  then show ?thesis
    by (simp add: py_str_def py_int_all_digits str_nat_digits str_nat_nonempty foldl_str_nat)
next
  case True
  let ?d = "str_nat (nat (- i))"
  have "strip (CHR ''-'' # ?d) = CHR ''-'' # ?d"
  proof (rule strip_id)
    show "\<not> py_isspace (last (CHR ''-'' # ?d))"
      using str_nat_digits [of "nat (- i)"] str_nat_nonempty [of "nat (- i)"]
      by (auto simp: list_all_iff is_digit_not_space)
  qed (simp_all add: py_isspace_def)
  with True show ?thesis
    by (simp add: py_str_def py_int_def unsigned_literal_str_nat)
qed

section \<open>Octets of a 32-bit value\<close>

lemma octets_reassemble:
  fixes v :: int
  assumes "0 \<le> v" "v < 2 ^ 32"
  shows "0 OR push_bit 24 (drop_bit 24 v AND 255) OR push_bit 16 (drop_bit 16 v AND 255)
           OR push_bit 8 (drop_bit 8 v AND 255) OR push_bit 0 (drop_bit 0 v AND 255) = v"
proof -
  have m: "(255::int) = mask 8" by (simp add: mask_eq_exp_minus_1)
  have t: "take_bit 32 v = v" using assms by (simp add: take_bit_int_eq_self)
  have b: "bit v n \<Longrightarrow> n < 32" for n
    using t by (metis bit_take_bit_iff)
  show ?thesis
    unfolding m
  proof (rule bit_eqI)
    fix n :: nat
    consider "n < 8" | "8 \<le> n" "n < 16" | "16 \<le> n" "n < 24" | "24 \<le> n" "n < 32" | "32 \<le> n"
      by linarith
    then show "bit (0 OR push_bit 24 (drop_bit 24 v AND mask 8) OR
          push_bit 16 (drop_bit 16 v AND mask 8) OR push_bit 8 (drop_bit 8 v AND mask 8) OR
          push_bit 0 (drop_bit 0 v AND mask 8)) n = bit v n"
    proof cases
      case 5
      then show ?thesis using b [of n] by (auto simp add: bit_simps)
    qed (auto simp add: bit_simps)
  qed
qed

lemma octets_extract:
  fixes a b c d :: int
  assumes "0 \<le> a" "a \<le> 255" "0 \<le> b" "b \<le> 255" "0 \<le> c" "c \<le> 255" "0 \<le> d" "d \<le> 255"
  defines "v \<equiv> 0 OR push_bit 24 a OR push_bit 16 b OR push_bit 8 c OR push_bit 0 d"
  shows "drop_bit 24 v AND 255 = a" "drop_bit 16 v AND 255 = b" "drop_bit 8 v AND 255 = c"
    "drop_bit 0 v AND 255 = d"
proof -
  have m: "(255::int) = mask 8" by (simp add: mask_eq_exp_minus_1)
  have t: "take_bit 8 x = x" if "0 \<le> x" "x \<le> 255" for x :: int
    using that by (simp add: take_bit_int_eq_self)
  have bb: "bit x n \<Longrightarrow> n < 8" if "0 \<le> x" "x \<le> 255" for x :: int and n
    using t [OF that] by (metis bit_take_bit_iff)
  note B = bb [OF assms(1,2)] bb [OF assms(3,4)] bb [OF assms(5,6)] bb [OF assms(7,8)]
  show "drop_bit 24 v AND 255 = a"
    unfolding m v_def by (rule bit_eqI) (auto simp add: bit_simps dest: B)
  show "drop_bit 16 v AND 255 = b"
    unfolding m v_def by (rule bit_eqI) (auto simp add: bit_simps dest: B)
  show "drop_bit 8 v AND 255 = c"
    unfolding m v_def by (rule bit_eqI) (auto simp add: bit_simps dest: B)
  show "drop_bit 0 v AND 255 = d"
    unfolding m v_def by (rule bit_eqI) (auto simp add: bit_simps dest: B)
qed

section \<open>Splitting and joining\<close>

lemma split_on_nonempty: "split_on c s \<noteq> []"
  by (induction s) (auto split: list.splits)

lemma split_on_no_sep: "c \<notin> set s \<Longrightarrow> split_on c s = [s]"
  by (induction s) auto

lemma split_on_append_sep: "c \<notin> set a \<Longrightarrow> split_on c (a @ c # b) = a # split_on c b"
  by (induction a) auto

lemma join_split: "join [c] (split_on c s) = s"
proof (induction s)
  case Nil
  show ?case by simp
next
  case (Cons x xs)
  show ?case
  proof (cases "x = c")
    case True
    obtain f fs where "split_on c xs = f # fs"
      using split_on_nonempty [of c xs] by (cases "split_on c xs") auto
    with Cons True show ?thesis by simp
  next
    case False
    obtain f fs where e: "split_on c xs = f # fs"
      using split_on_nonempty [of c xs] by (cases "split_on c xs") auto
    with Cons False show ?thesis by (cases fs) auto
  qed
qed

lemma split_join:
  "fs \<noteq> [] \<Longrightarrow> \<forall>f\<in>set fs. c \<notin> set f \<Longrightarrow> split_on c (join [c] fs) = fs"
proof (induction fs)
  case Nil
  then show ?case by simp
next
  case (Cons f fs)
  show ?case
  proof (cases fs)
    case Nil
    with Cons.prems show ?thesis by (simp add: split_on_no_sep)
  next
    case (Cons g gs)
    with Cons.IH Cons.prems have "split_on c (join [c] fs) = fs" by simp
    with Cons Cons.prems show ?thesis by (simp add: split_on_append_sep)
  qed
qed

lemma dec_step_decimal: "decimal_value f = foldl dec_step 0 f"
  by (simp add: decimal_value_def)

lemma digit_val_range: "is_digit c \<Longrightarrow> 0 \<le> digit_val c \<and> digit_val c < 10"
  by (auto simp: is_digit_def digit_val_def)

lemma digit_char_digit_val: "is_digit c \<Longrightarrow> digit_char (nat (digit_val c)) = c"
  by (auto simp: is_digit_def digit_val_def digit_char_def)

lemma digit_val_zero: "is_digit c \<Longrightarrow> digit_val c = 0 \<Longrightarrow> c = CHR ''0''"
  by (auto simp: is_digit_def digit_val_def)

lemma foldl_dec_step_ge: "list_all is_digit xs \<Longrightarrow> 0 \<le> a \<Longrightarrow> a \<le> foldl dec_step a xs"
proof (induction xs arbitrary: a)
  case Nil
  then show ?case by simp
next
  case (Cons x xs)
  then have "0 \<le> digit_val x" using digit_val_range by simp
  with Cons.prems have "a \<le> dec_step a x" by (simp add: dec_step_def)
  moreover from Cons have "dec_step a x \<le> foldl dec_step (dec_step a x) xs"
    using \<open>a \<le> dec_step a x\<close> by simp
  ultimately show ?case by simp
qed

lemma str_nat_decimal:
  assumes "list_all is_digit f" "f \<noteq> []" "f = ''0'' \<or> hd f \<noteq> CHR ''0''"
  shows "str_nat (nat (foldl dec_step 0 f)) = f"
  using assms
proof (induction f rule: rev_induct)
  case Nil
  then show ?case by simp
next
  case (snoc d xs)
  from snoc.prems have d: "is_digit d" and xs: "list_all is_digit xs" by simp_all
  note r = digit_val_range [OF d]
  show ?case
  proof (cases "xs = []")
    case True
    have "nat (digit_val d) < 10" using r by linarith
    then show ?thesis using True r d
      by (simp add: str_nat.simps [of "nat (digit_val d)"] dec_step_def digit_char_digit_val)
  next
    case False
    then obtain c cs where c: "xs = c # cs" by (cases xs) auto
    from snoc.prems False have nz: "hd xs \<noteq> CHR ''0''" by (auto simp: c)
    have cd: "is_digit c" using xs c by simp
    have "digit_val c \<noteq> 0" using digit_val_zero [OF cd] nz c by auto
    then have c1: "1 \<le> digit_val c" using digit_val_range [OF cd] by simp
    have "foldl dec_step 0 xs = foldl dec_step (digit_val c) cs" by (simp add: c dec_step_def)
    moreover have "digit_val c \<le> foldl dec_step (digit_val c) cs"
      using xs c c1 by (intro foldl_dec_step_ge) simp_all
    ultimately have v1: "1 \<le> foldl dec_step 0 xs" using c1 by simp
    let ?v = "foldl dec_step 0 xs"
    have ih: "str_nat (nat ?v) = xs" using snoc.IH xs False nz by simp
    have val: "foldl dec_step 0 (xs @ [d]) = 10 * ?v + digit_val d" by (simp add: dec_step_def)
    have dn: "nat (digit_val d) < 10" using r by linarith
    have sp: "nat (10 * ?v + digit_val d) = 10 * nat ?v + nat (digit_val d)"
      using v1 r by linarith
    have big: "\<not> nat (10 * ?v + digit_val d) < 10" using v1 r by linarith
    have dv: "nat (10 * ?v + digit_val d) div 10 = nat ?v" unfolding sp using dn by simp
    have md: "nat (10 * ?v + digit_val d) mod 10 = nat (digit_val d)"
      unfolding sp using dn by simp
    show ?thesis
      unfolding val
      by (subst str_nat.simps) (simp add: big dv md ih digit_char_digit_val [OF d])
  qed
qed

lemma py_str_decimal:
  "canonical_octet f \<Longrightarrow> py_str (decimal_value f) = f"
proof -
  assume c: "canonical_octet f"
  then have "0 \<le> foldl dec_step 0 f"
    by (intro foldl_dec_step_ge) (simp_all add: canonical_octet_def)
  with c show ?thesis
    by (simp add: py_str_def dec_step_decimal str_nat_decimal canonical_octet_def)
qed

lemma py_int_canonical: "canonical_octet f \<Longrightarrow> py_int f = Inr (decimal_value f)"
  by (simp add: canonical_octet_def py_int_all_digits dec_step_decimal)

lemma canonical_octet_range: "canonical_octet f \<Longrightarrow> 0 \<le> decimal_value f \<and> decimal_value f \<le> 255"
  using foldl_dec_step_ge [of f 0] by (simp add: canonical_octet_def dec_step_decimal)

section \<open>Properties of the address codec\<close>

lemma py_int_error: "py_int s = Inl e \<Longrightarrow> e = ValueError"
  by (auto simp: py_int_def Let_def split: list.splits if_splits option.splits)

lemma ipv4_loop_error: "ipv4_loop fs idx v = Inl e \<Longrightarrow> e = IndexError \<or> e = ValueError"
  by (induction idx arbitrary: v) (auto split: if_splits sum.splits dest: py_int_error)

lemma ipv4_loop_succeeds:
  "(\<exists>r. ipv4_loop fs idx v = Inr r) =
     (\<forall>i\<in>set idx. i < length fs \<and> (\<exists>n. py_int (fs ! i) = Inr n))"
proof (induction idx arbitrary: v)
  case Nil
  show ?case by simp
next
  case (Cons i rest)
  show ?case
  proof (cases "length fs \<le> i")
    case True
    then show ?thesis by auto
  next
    case False
    show ?thesis
    proof (cases "py_int (fs ! i)")
      case (Inl e)
      with False show ?thesis by simp
    next
      case (Inr n)
      with False Cons [of "v OR push_bit (8 * (3 - i)) n"] show ?thesis by simp
    qed
  qed
qed

lemma py_str_no_dot: "0 \<le> i \<Longrightarrow> CHR ''.'' \<notin> set (py_str i)"
  using str_nat_digits [of "nat i"] is_digit_not_sign
  by (auto simp: py_str_def list_all_iff)

lemma quad_of_canonical:
  assumes "canonical_quad s"
  obtains f0 f1 f2 f3 where "split_on CHR ''.'' s = [f0, f1, f2, f3]"
    "canonical_octet f0" "canonical_octet f1" "canonical_octet f2" "canonical_octet f3"
proof -
  from assms have l: "length (split_on CHR ''.'' s) = 4"
    and a: "list_all canonical_octet (split_on CHR ''.'' s)"
    by (simp_all add: canonical_quad_def)
  from l obtain f0 f1 f2 f3 where e: "split_on CHR ''.'' s = [f0, f1, f2, f3]"
    by (auto simp: length_Suc_conv eval_nat_numeral)
  with a that show ?thesis by simp
qed

lemma ipv4_to_value_canonical:
  assumes "canonical_quad s"
  shows "\<exists>v. ipv4_to_value s = Inr v \<and> value_to_ipv4 v = s \<and> 0 \<le> v \<and> v < 2 ^ 32"
proof -
  from assms obtain f0 f1 f2 f3 where e: "split_on CHR ''.'' s = [f0, f1, f2, f3]"
    and c: "canonical_octet f0" "canonical_octet f1" "canonical_octet f2" "canonical_octet f3"
    by (rule quad_of_canonical)
  let ?a = "decimal_value f0" and ?b = "decimal_value f1"
  let ?c = "decimal_value f2" and ?d = "decimal_value f3"
  let ?v = "0 OR push_bit 24 ?a OR push_bit 16 ?b OR push_bit 8 ?c OR push_bit 0 ?d"
  note r = canonical_octet_range [OF c(1)] canonical_octet_range [OF c(2)]
    canonical_octet_range [OF c(3)] canonical_octet_range [OF c(4)]
  have v: "ipv4_to_value s = Inr ?v"
    using c by (simp add: ipv4_to_value_def e py_int_canonical or.assoc)
  have x: "drop_bit 24 ?v AND 255 = ?a" "drop_bit 16 ?v AND 255 = ?b"
    "drop_bit 8 ?v AND 255 = ?c" "drop_bit 0 ?v AND 255 = ?d"
    using r by (simp_all only: octets_extract)
  have "value_to_ipv4 ?v = join ''.'' [py_str ?a, py_str ?b, py_str ?c, py_str ?d]"
    unfolding value_to_ipv4_def using x by simp
  also have "\<dots> = join ''.'' [f0, f1, f2, f3]"
    using c by (simp only: py_str_decimal)
  also have "\<dots> = s"
    using join_split [of "CHR ''.''" s] by (simp only: e)
  finally have rt: "value_to_ipv4 ?v = s" .
  have m: "(255::int) = mask 8" by (simp add: mask_eq_exp_minus_1)
  have nn: "0 \<le> ?v" using r by simp
  have t: "take_bit 8 x = x" if "0 \<le> x \<and> x \<le> 255" for x :: int
    using that by (simp add: take_bit_int_eq_self)
  have bb: "bit x n \<Longrightarrow> n < 8" if "0 \<le> x \<and> x \<le> 255" for x :: int and n
    using t [OF that] by (metis bit_take_bit_iff)
  have "take_bit 32 ?v = ?v"
    by (rule bit_eqI) (auto simp add: bit_simps dest: bb [OF r(1)] bb [OF r(2)] bb [OF r(3)] bb [OF r(4)])
  then have "?v < 2 ^ 32"
    using nn by (metis take_bit_int_less_exp)
  with v rt nn show ?thesis by blast
qed

lemma ipv4_to_value_value_to_ipv4:
  assumes "0 \<le> v" "v < 2 ^ 32"
  shows "ipv4_to_value (value_to_ipv4 v) = Inr v"
proof -
  let ?o = "\<lambda>k. drop_bit k v AND 255"
  let ?fs = "[py_str (?o 24), py_str (?o 16), py_str (?o 8), py_str (?o 0)]"
  have nd: "CHR ''.'' \<notin> set (py_str (x AND 255))" for x :: int
    by (rule py_str_no_dot) simp
  have e: "value_to_ipv4 v = join ''.'' ?fs" by (simp add: value_to_ipv4_def)
  have "split_on CHR ''.'' (join ''.'' ?fs) = ?fs"
    by (rule split_join) (simp_all add: nd)
  then have "ipv4_to_value (value_to_ipv4 v) =
      Inr (0 OR push_bit 24 (?o 24) OR push_bit 16 (?o 16) OR push_bit 8 (?o 8) OR push_bit 0 (?o 0))"
    unfolding e ipv4_to_value_def by (simp add: py_int_py_str or.assoc)
  then show ?thesis using octets_reassemble [OF assms] by simp
qed

lemma bin_value_zeros: "bin_value acc (replicate b CHR ''0'') = Some (acc * 2 ^ b)"
  by (induction b arbitrary: acc) simp_all

lemma bin_value_ones:
  "bin_value acc (replicate a CHR ''1'' @ ys) = bin_value (acc * 2 ^ a + 2 ^ a - 1) ys"
  by (induction a arbitrary: acc) (simp_all add: algebra_simps)

lemma py_int2_ones_zeros:
  "0 < a + b \<Longrightarrow>
   py_int2 (replicate a CHR ''1'' @ replicate b CHR ''0'') = Inr ((2 ^ a - 1) * 2 ^ b)"
  by (simp add: py_int2_def bin_value_ones bin_value_zeros)

lemma py_str_no_slash: "CHR ''/'' \<notin> set (py_str i)"
  using str_nat_digits [of "nat i"] str_nat_digits [of "nat (- i)"] is_digit_not_sign
  by (auto simp: py_str_def list_all_iff)

lemma get_subnet_mask_value_split:
  assumes "CHR ''/'' \<notin> set pre"
  shows "get_subnet_mask_value (pre @ ''/'' @ py_str n) =
     (case py_repeat CHR ''1'' n of
        Inl e \<Rightarrow> Inl e
      | Inr ones \<Rightarrow>
          (case py_repeat CHR ''0'' (32 - n) of
             Inl e \<Rightarrow> Inl e
           | Inr zeros \<Rightarrow> py_int2 (ones @ zeros)))"
proof -
  have "split_on CHR ''/'' (pre @ ''/'' @ py_str n) = [pre, py_str n]"
    using assms by (simp add: split_on_append_sep split_on_no_sep py_str_no_slash)
  then show ?thesis by (simp add: get_subnet_mask_value_def py_int_py_str)
qed

lemma get_subnet_mask_value_str:
  assumes "CHR ''/'' \<notin> set pre" "32 - index_limit < n" "n < index_limit"
  shows "get_subnet_mask_value (pre @ ''/'' @ py_str n) = Inr ((2 ^ nat n - 1) * 2 ^ nat (32 - n))"
proof -
  have "0 < nat n + nat (32 - n)" by linarith
  moreover from assms(2,3) have "py_repeat CHR ''1'' n = Inr (replicate (nat n) CHR ''1'')"
    "py_repeat CHR ''0'' (32 - n) = Inr (replicate (nat (32 - n)) CHR ''0'')"
    by (simp_all add: py_repeat_def index_limit_def)
  ultimately show ?thesis
    unfolding get_subnet_mask_value_split [OF assms(1)] by (simp add: py_int2_ones_zeros)
qed

lemma get_subnet_mask_value_overflow:
  assumes "CHR ''/'' \<notin> set pre" "n \<le> 32 - index_limit \<or> index_limit \<le> n"
  shows "get_subnet_mask_value (pre @ ''/'' @ py_str n) = Inl OverflowError"
proof (cases "n < - index_limit \<or> index_limit \<le> n")
  case True
  then show ?thesis
    unfolding get_subnet_mask_value_split [OF assms(1)] by (simp add: py_repeat_def)
next
  case False
  with assms(2) have "index_limit \<le> 32 - n" by linarith
  with False show ?thesis
    unfolding get_subnet_mask_value_split [OF assms(1)] by (simp add: py_repeat_def)
qed

lemma top_bits:
  assumes "a \<le> 32"
  shows "bit ((2 ^ a - 1) * 2 ^ (32 - a) :: int) i = (32 - a \<le> i \<and> i < 32)"
proof -
  have "(2 ^ a - 1) * 2 ^ (32 - a) = push_bit (32 - a) (mask a :: int)"
    by (simp add: push_bit_eq_mult mask_eq_exp_minus_1)
  then show ?thesis using assms by (auto simp add: bit_simps)
qed

section \<open>The shortest path engine\<close>

lemma dist_less_irrefl [simp]: "\<not> dist_less a a"
  by (cases a) simp_all

lemma dist_less_trans: "dist_less a b \<Longrightarrow> dist_less b c \<Longrightarrow> dist_less a c"
  by (cases a; cases b; cases c) simp_all

lemma dist_not_less_trans: "\<not> dist_less b a \<Longrightarrow> \<not> dist_less c b \<Longrightarrow> \<not> dist_less c a"
  by (cases a; cases b; cases c) simp_all

lemma dist_less_Infinity: "dist_less a Infinity = (a \<noteq> Infinity)"
  by (cases a) simp_all

lemma min_loop_spec:
  assumes "\<forall>x\<in>set xs. d (Some x) \<noteq> None" "d (Some best) = Some bv"
  shows "\<exists>m mv. min_loop d xs best bv = Inr m \<and> m \<in> insert best (set xs) \<and>
           d (Some m) = Some mv \<and> \<not> dist_less bv mv \<and>
           (\<forall>x\<in>set xs. \<forall>v. d (Some x) = Some v \<longrightarrow> \<not> dist_less v mv)"
  using assms
proof (induction xs arbitrary: best bv)
  case Nil
  then show ?case by simp
next
  case (Cons x xs)
  from Cons.prems obtain v where v: "d (Some x) = Some v" by auto
  show ?case
  proof (cases "dist_less v bv")
    case True
    from Cons.IH [of x v] Cons.prems v
    obtain m mv where m: "min_loop d xs x v = Inr m" "m \<in> insert x (set xs)"
      "d (Some m) = Some mv" "\<not> dist_less v mv"
      "\<forall>y\<in>set xs. \<forall>w. d (Some y) = Some w \<longrightarrow> \<not> dist_less w mv"
      by auto
    have "\<not> dist_less bv mv"
      using True m(4) dist_less_trans by blast
    with m v True show ?thesis by auto
  next
    case False
    from Cons.IH [of best bv] Cons.prems
    obtain m mv where m: "min_loop d xs best bv = Inr m" "m \<in> insert best (set xs)"
      "d (Some m) = Some mv" "\<not> dist_less bv mv"
      "\<forall>y\<in>set xs. \<forall>w. d (Some y) = Some w \<longrightarrow> \<not> dist_less w mv"
      by auto
    have "\<not> dist_less v mv"
      using False m(4) dist_not_less_trans by blast
    with m v False show ?thesis by auto
  qed
qed

lemma py_min_spec:
  assumes "xs \<noteq> []" "\<forall>x\<in>set xs. d (Some x) \<noteq> None"
  shows "\<exists>m mv. py_min d xs = Inr m \<and> m \<in> set xs \<and> d (Some m) = Some mv \<and>
           (\<forall>x\<in>set xs. \<forall>v. d (Some x) = Some v \<longrightarrow> \<not> dist_less v mv)"
proof -
  from assms obtain x rest where xs: "xs = x # rest" by (cases xs) auto
  with assms obtain v where v: "d (Some x) = Some v" by auto
  from min_loop_spec [of rest d x v] assms xs v
  obtain m mv where m: "min_loop d rest x v = Inr m" "m \<in> insert x (set rest)"
    "d (Some m) = Some mv" "\<not> dist_less v mv"
    "\<forall>y\<in>set rest. \<forall>w. d (Some y) = Some w \<longrightarrow> \<not> dist_less w mv"
    by auto
  with xs v show ?thesis by (auto simp: py_min_def)
qed

lemma relax_eq:
  assumes "distinct (map fst cs)" "cur \<notin> set unv" "d (Some cur) = Some dc"
    "relax unv cur cs (d, p) = Inr (d', p')"
  shows "d' = relax_dist dc unv cs d \<and> p' = relax_prev dc unv cur cs d p"
  using assms
proof (induction cs arbitrary: d p)
  case Nil
  then show ?case by (auto simp: relax_dist_def relax_prev_def split: option.splits)
next
  case (Cons c cs)
  obtain n l where c: "c = (n, l)" by (cases c)
  from Cons.prems c have nf: "map_of cs n = None" and dis: "distinct (map fst cs)"
    by (auto simp: map_of_eq_None_iff)
  show ?case
  proof (cases "n \<in> set unv")
    case False
    with Cons.prems c have "relax unv cur cs (d, p) = Inr (d', p')" by simp
    from Cons.IH [of d p, OF dis Cons.prems(2) Cons.prems(3) this]
    have "d' = relax_dist dc unv cs d" "p' = relax_prev dc unv cur cs d p" by simp_all
    moreover have "relax_dist dc unv (c # cs) d = relax_dist dc unv cs d"
      using False nf c by (auto simp: relax_dist_def split: option.splits sum.splits)
    moreover have "relax_prev dc unv cur (c # cs) d p = relax_prev dc unv cur cs d p"
      using False nf c by (auto simp: relax_prev_def split: option.splits sum.splits)
    ultimately show ?thesis by simp
  next
    case True
    then have ne: "n \<noteq> cur" using Cons.prems(2) by auto
    from True Cons.prems c obtain nd dn where nd: "dist_add dc (ad l) = Inr nd"
      and dn: "d (Some n) = Some dn"
      by (auto split: sum.splits option.splits)
    show ?thesis
    proof (cases "dist_less nd dn")
      case less: True
      let ?d1 = "d(Some n \<mapsto> nd)" and ?p1 = "p(n \<mapsto> Some cur)"
      from True Cons.prems c nd dn less have r: "relax unv cur cs (?d1, ?p1) = Inr (d', p')"
        by simp
      have dcur: "?d1 (Some cur) = Some dc" using ne Cons.prems(3) by simp
      from dis Cons.prems(2) dcur r
      have e: "d' = relax_dist dc unv cs ?d1 \<and> p' = relax_prev dc unv cur cs ?d1 ?p1"
        by (rule Cons.IH)
      have "relax_dist dc unv cs ?d1 = relax_dist dc unv (c # cs) d"
        using True nf c nd dn less
        by (intro ext) (auto simp: relax_dist_def split: option.splits sum.splits)
      moreover have "relax_prev dc unv cur cs ?d1 ?p1 = relax_prev dc unv cur (c # cs) d p"
        using True nf c nd dn less
        by (intro ext) (auto simp: relax_prev_def split: option.splits sum.splits)
      ultimately show ?thesis using e by simp
    next
      case False
      from True Cons.prems c nd dn False have r: "relax unv cur cs (d, p) = Inr (d', p')"
        by simp
      from Cons.IH [of d p, OF dis Cons.prems(2) Cons.prems(3) r]
      have e: "d' = relax_dist dc unv cs d" "p' = relax_prev dc unv cur cs d p" by simp_all
      have "relax_dist dc unv cs d = relax_dist dc unv (c # cs) d"
        using True nf c nd dn False
        by (intro ext) (auto simp: relax_dist_def split: option.splits sum.splits)
      moreover have "relax_prev dc unv cur cs d p = relax_prev dc unv cur (c # cs) d p"
        using True nf c nd dn False
        by (intro ext) (auto simp: relax_prev_def split: option.splits sum.splits)
      ultimately show ?thesis using e by simp
    qed
  qed
qed

lemma relax_total:
  assumes "d (Some cur) = Some dc" "\<forall>n\<in>set unv. d (Some n) \<noteq> None"
    "dc = Infinity \<longrightarrow> (\<forall>(n, l)\<in>set cs. n \<in> set unv \<longrightarrow> \<bar>ad l\<bar> < float_limit)"
    "cur \<notin> set unv"
  shows "\<exists>r. relax unv cur cs (d, p) = Inr r"
  using assms
proof (induction cs arbitrary: d p)
  case Nil
  then show ?case by simp
next
  case (Cons c cs)
  obtain n l where c: "c = (n, l)" by (cases c)
  show ?case
  proof (cases "n \<in> set unv")
    case False
    with Cons c show ?thesis by simp
  next
    case True
    then have ne: "n \<noteq> cur" using Cons.prems(4) by auto
    from Cons.prems(3) c True obtain nd where nd: "dist_add dc (ad l) = Inr nd"
      by (cases dc) auto
    from Cons.prems(2) True obtain dn where dn: "d (Some n) = Some dn" by auto
    have a: "(d(Some n \<mapsto> nd)) (Some cur) = Some dc" using ne Cons.prems(1) by simp
    have b: "\<forall>m\<in>set unv. (d(Some n \<mapsto> nd)) (Some m) \<noteq> None" using Cons.prems(2) by simp
    have cc: "dc = Infinity \<longrightarrow> (\<forall>(n, l)\<in>set cs. n \<in> set unv \<longrightarrow> \<bar>ad l\<bar> < float_limit)"
      using Cons.prems(3) by auto
    have r1: "\<exists>r. relax unv cur cs (d(Some n \<mapsto> nd), p(n \<mapsto> Some cur)) = Inr r"
      using a b cc Cons.prems(4) by (rule Cons.IH)
    have r2: "\<exists>r. relax unv cur cs (d, p) = Inr r"
      using Cons.prems(1) Cons.prems(2) cc Cons.prems(4) by (rule Cons.IH)
    show ?thesis
    proof (cases "dist_less nd dn")
      case True
      with r1 c \<open>n \<in> set unv\<close> nd dn Cons.prems(1) show ?thesis by simp
    next
      case False
      with r2 c \<open>n \<in> set unv\<close> nd dn Cons.prems(1) show ?thesis by simp
    qed
  qed
qed

subsection \<open>Paths\<close>

lemma link_weight_routers:
  "link_weight rs u v = Some w \<Longrightarrow> u \<in> set (router_ids rs) \<and> v \<in> set (router_ids rs)"
  by (auto simp: link_weight_def router_ids_def split: option.splits if_splits
      dest: map_of_SomeD intro: rev_image_eqI)

lemma link_weight_lookup:
  "map_of rs u = Some info \<Longrightarrow>
   link_weight rs u v = Some w \<longleftrightarrow>
     (v \<in> set (router_ids rs) \<and> (\<exists>l. map_of (connections info) v = Some l \<and> ad l = w))"
  by (auto simp: link_weight_def)

lemma wf_graph_connections:
  assumes "wf_graph rs" "map_of rs u = Some info"
  shows "distinct (map fst (connections info))"
    and "map_of (connections info) v = Some l \<Longrightarrow> 0 \<le> ad l"
proof -
  from assms(2) have "(u, info) \<in> set rs" by (rule map_of_SomeD)
  with assms(1) have a: "distinct (map fst (connections info))"
    and b: "list_all (\<lambda>(n, l). 0 \<le> ad l) (connections info)"
    by (auto simp: wf_graph_def list_all_iff)
  show "distinct (map fst (connections info))" by (rule a)
  show "map_of (connections info) v = Some l \<Longrightarrow> 0 \<le> ad l"
    using b by (auto simp: list_all_iff dest: map_of_SomeD)
qed

lemma link_weight_nonneg: "wf_graph rs \<Longrightarrow> link_weight rs u v = Some w \<Longrightarrow> 0 \<le> w"
  by (auto simp: link_weight_def split: option.splits if_splits dest: wf_graph_connections(2))

lemma valid_path_snoc:
  "q \<noteq> [] \<Longrightarrow> valid_path rs (q @ [y]) = (valid_path rs q \<and> link_weight rs (last q) y \<noteq> None)"
proof (induction rs q rule: valid_path.induct)
  case (1 rs)
  then show ?case by simp
next
  case (2 rs u)
  then show ?case by (auto dest: link_weight_routers)
next
  case (3 rs u v rest)
  then show ?case by auto
qed

lemma path_weight_snoc:
  "q \<noteq> [] \<Longrightarrow> path_weight rs (q @ [y]) =
     path_weight rs q + (case link_weight rs (last q) y of None \<Rightarrow> 0 | Some w \<Rightarrow> w)"
  by (induction rs q rule: path_weight.induct) auto

lemma valid_path_last: "valid_path rs p \<Longrightarrow> last p \<in> set (router_ids rs)"
  by (induction rs p rule: valid_path.induct) auto

lemma valid_path_nodes: "valid_path rs p \<Longrightarrow> set p \<subseteq> set (router_ids rs)"
  by (induction rs p rule: valid_path.induct) (auto dest: link_weight_routers)

lemma is_path_single: "s \<in> set (router_ids rs) \<Longrightarrow> is_path rs s s [s]"
  by (simp add: is_path_def)

lemma is_path_snoc:
  "is_path rs s x q \<Longrightarrow> link_weight rs x y = Some w \<Longrightarrow>
   is_path rs s y (q @ [y]) \<and> path_weight rs (q @ [y]) = path_weight rs q + w"
proof -
  assume a: "is_path rs s x q" and b: "link_weight rs x y = Some w"
  from a have ne: "q \<noteq> []" by (auto simp: is_path_def)
  with a b show ?thesis
    by (auto simp: is_path_def valid_path_snoc path_weight_snoc)
qed

lemma is_path_cases:
  assumes "is_path rs s y p"
  shows "(p = [s] \<and> y = s \<and> s \<in> set (router_ids rs)) \<or>
         (\<exists>q x w. p = q @ [y] \<and> is_path rs s x q \<and> link_weight rs x y = Some w)"
proof (cases p rule: rev_cases)
  case Nil
  with assms show ?thesis by (simp add: is_path_def)
next
  case (snoc q z)
  with assms have z: "z = y" by (simp add: is_path_def)
  show ?thesis
  proof (cases "q = []")
    case True
    with assms snoc z show ?thesis by (auto simp: is_path_def)
  next
    case False
    with assms snoc z have "valid_path rs q" "link_weight rs (last q) y \<noteq> None" "hd q = s"
      by (auto simp: is_path_def valid_path_snoc)
    then show ?thesis using snoc z False by (auto simp: is_path_def)
  qed
qed

lemma path_weight_nonneg: "wf_graph rs \<Longrightarrow> valid_path rs p \<Longrightarrow> 0 \<le> path_weight rs p"
proof (induction rs p rule: path_weight.induct)
  case (1 rs u v rest)
  then show ?case by (auto dest: link_weight_nonneg)
qed simp_all

subsection \<open>Predecessor chains\<close>

lemma linked_snoc:
  "q \<noteq> [] \<Longrightarrow> linked prev (q @ [v]) = (linked prev q \<and> prev v = Some (Some (last q)))"
  by (induction prev q rule: linked.induct) auto

lemma pred_chain_single: "prev v = Some None \<Longrightarrow> pred_chain prev [v]"
  by (simp add: pred_chain_def)

lemma pred_chain_snoc:
  "pred_chain prev q \<Longrightarrow> prev v = Some (Some (last q)) \<Longrightarrow> pred_chain prev (q @ [v])"
  by (auto simp: pred_chain_def linked_snoc)

lemma linked_cong: "\<forall>v\<in>set p. prev' v = prev v \<Longrightarrow> linked prev' p = linked prev p"
  by (induction prev p rule: linked.induct) auto

lemma pred_chain_cong:
  "\<forall>v\<in>set p. prev' v = prev v \<Longrightarrow> pred_chain prev p \<Longrightarrow> pred_chain prev' p"
  using linked_cong [of p prev' prev] by (auto simp: pred_chain_def)

lemma walk_pred_chain:
  assumes "src \<noteq> dest"
  shows "pred_chain prev p \<Longrightarrow> walk prev src dest (Some (last p)) acc = Some (Inr (acc @ rev p))"
proof (induction p arbitrary: acc rule: rev_induct)
  case Nil
  then show ?case by (simp add: pred_chain_def)
next
  case (snoc v q)
  show ?case
  proof (cases "q = []")
    case True
    with snoc.prems have "prev v = Some None" by (simp add: pred_chain_def)
    with assms True show ?thesis
      by (simp add: walk.simps [of prev src dest "Some v"] walk.simps [of prev src dest None])
  next
    case False
    with snoc.prems have pv: "prev v = Some (Some (last q))" and q: "pred_chain prev q"
      by (auto simp: pred_chain_def linked_snoc)
    from snoc.IH [OF q, of "acc @ [v]"] pv assms show ?thesis
      by (simp add: walk.simps [of prev src dest "Some v"])
  qed
qed

subsection \<open>What one relaxation changes\<close>

lemma relax_dist_frame: "v \<notin> set unv \<Longrightarrow> relax_dist dc unv cs d (Some v) = d (Some v)"
  by (auto simp: relax_dist_def split: option.splits sum.splits)

lemma relax_prev_frame: "v \<notin> set unv \<Longrightarrow> relax_prev dc unv cur cs d p v = p v"
  by (auto simp: relax_prev_def split: option.splits sum.splits)

lemma relax_cases:
  "(relax_dist dc unv cs d (Some v) = d (Some v) \<and> relax_prev dc unv cur cs d p v = p v) \<or>
   (v \<in> set unv \<and>
    (\<exists>l a dn. map_of cs v = Some l \<and> dc = Finite a \<and> d (Some v) = Some dn \<and>
       dist_less (Finite (a + ad l)) dn \<and>
       relax_dist dc unv cs d (Some v) = Some (Finite (a + ad l)) \<and>
       relax_prev dc unv cur cs d p v = Some (Some cur)))"
  by (cases dc) (auto simp: relax_dist_def relax_prev_def split: option.splits sum.splits if_splits)

lemma relax_dist_relaxed:
  "v \<in> set unv \<Longrightarrow> map_of cs v = Some l \<Longrightarrow> d (Some v) = Some dn \<Longrightarrow>
   \<exists>dv. relax_dist (Finite a) unv cs d (Some v) = Some dv \<and> \<not> dist_less (Finite (a + ad l)) dv"
  by (auto simp: relax_dist_def)

lemma relax_dist_defined: "d (Some v) \<noteq> None \<Longrightarrow> relax_dist dc unv cs d (Some v) \<noteq> None"
  by (auto simp: relax_dist_def split: option.splits sum.splits)

lemma relax_prev_defined: "p v \<noteq> None \<Longrightarrow> relax_prev dc unv cur cs d p v \<noteq> None"
  by (auto simp: relax_prev_def split: option.splits sum.splits)

lemma relax_dist_decrease:
  "relax_dist dc unv cs d (Some v) = Some x \<Longrightarrow> \<exists>y. d (Some v) = Some y \<and> \<not> dist_less y x"
  by (auto simp: relax_dist_def split: option.splits sum.splits if_splits
      dest: dist_less_trans)

subsection \<open>What one step of the main loop changes\<close>

lemma step_unvisited:
  "search_step rs cur st st' \<Longrightarrow> set (unvisited st') = set (unvisited st) - {cur}"
  by (auto simp: search_step_def)

lemma step_routers: "search_step rs cur st st' \<Longrightarrow> routers st' = routers st"
  by (auto simp: search_step_def)

lemma step_frame:
  "search_step rs cur st st' \<Longrightarrow> v \<notin> set (unvisited st') \<Longrightarrow>
   distances st' (Some v) = distances st (Some v) \<and> previous st' v = previous st v"
  by (auto simp: search_step_def relax_dist_frame relax_prev_frame)

lemma step_cases:
  assumes "search_step rs cur st st'" "inv_tables rs st"
  shows "(distances st' (Some v) = distances st (Some v) \<and> previous st' v = previous st v) \<or>
     (v \<in> set (unvisited st') \<and>
      (\<exists>a w dn. distances st (Some cur) = Some (Finite a) \<and> link_weight rs cur v = Some w \<and>
         distances st (Some v) = Some dn \<and> dist_less (Finite (a + w)) dn \<and>
         distances st' (Some v) = Some (Finite (a + w)) \<and> previous st' v = Some (Some cur)))"
proof -
  from assms(1) obtain dc info where dc: "distances st (Some cur) = Some dc"
    and info: "map_of rs cur = Some info"
    and u': "unvisited st' = removeAll cur (unvisited st)"
    and d': "distances st' =
           relax_dist dc (removeAll cur (unvisited st)) (connections info) (distances st)"
    and p': "previous st' =
           relax_prev dc (removeAll cur (unvisited st)) cur (connections info) (distances st)
             (previous st)"
    unfolding search_step_def by blast
  let ?U = "removeAll cur (unvisited st)"
  from relax_cases [of dc ?U "connections info" "distances st" v cur "previous st"]
  show ?thesis
  proof
    assume "relax_dist dc ?U (connections info) (distances st) (Some v) = distances st (Some v) \<and>
      relax_prev dc ?U cur (connections info) (distances st) (previous st) v = previous st v"
    then show ?thesis by (simp add: d' p')
  next
    assume c: "v \<in> set ?U \<and>
      (\<exists>l a dn. map_of (connections info) v = Some l \<and> dc = Finite a \<and>
         distances st (Some v) = Some dn \<and> dist_less (Finite (a + ad l)) dn \<and>
         relax_dist dc ?U (connections info) (distances st) (Some v) = Some (Finite (a + ad l)) \<and>
         relax_prev dc ?U cur (connections info) (distances st) (previous st) v = Some (Some cur))"
    then have "v \<in> set (router_ids rs)" using assms(2) by (auto simp: inv_tables_def)
    with c info dc have "v \<in> set (unvisited st') \<and>
      (\<exists>a w dn. distances st (Some cur) = Some (Finite a) \<and> link_weight rs cur v = Some w \<and>
         distances st (Some v) = Some dn \<and> dist_less (Finite (a + w)) dn \<and>
         distances st' (Some v) = Some (Finite (a + w)) \<and> previous st' v = Some (Some cur))"
      by (auto simp: u' d' p' link_weight_lookup)
    then show ?thesis ..
  qed
qed

lemma step_relaxed:
  assumes "search_step rs cur st st'" "inv_tables rs st" "v \<in> set (unvisited st')"
    "link_weight rs cur v = Some w" "distances st (Some cur) = Some (Finite a)"
  shows "\<exists>dv. distances st' (Some v) = Some dv \<and> \<not> dist_less (Finite (a + w)) dv"
proof -
  from assms(1) obtain dc info where dc: "distances st (Some cur) = Some dc"
    and info: "map_of rs cur = Some info"
    and u': "unvisited st' = removeAll cur (unvisited st)"
    and d': "distances st' =
           relax_dist dc (removeAll cur (unvisited st)) (connections info) (distances st)"
    unfolding search_step_def by blast
  from dc assms(5) have dca: "dc = Finite a" by simp
  from assms(4) info obtain l where l: "map_of (connections info) v = Some l" "ad l = w"
    and vk: "v \<in> set (router_ids rs)"
    by (auto simp: link_weight_lookup)
  from vk assms(2) obtain dn where dn: "distances st (Some v) = Some dn"
    by (auto simp: inv_tables_def)
  from assms(3) have "v \<in> set (removeAll cur (unvisited st))" by (simp add: u')
  from relax_dist_relaxed [where d = "distances st" and a = a, OF this l(1) dn] l(2)
  show ?thesis by (simp add: d' dca)
qed

lemma step_defined:
  assumes "search_step rs cur st st'"
  shows "distances st (Some v) \<noteq> None \<Longrightarrow> distances st' (Some v) \<noteq> None"
    and "previous st v \<noteq> None \<Longrightarrow> previous st' v \<noteq> None"
proof -
  from assms obtain dc info where info: "map_of rs cur = Some info" and
    d': "distances st' =
           relax_dist dc (removeAll cur (unvisited st)) (connections info) (distances st)"
    and p': "previous st' =
           relax_prev dc (removeAll cur (unvisited st)) cur (connections info) (distances st)
             (previous st)"
    unfolding search_step_def by blast
  show "distances st (Some v) \<noteq> None \<Longrightarrow> distances st' (Some v) \<noteq> None"
    unfolding d' by (rule relax_dist_defined)
  show "previous st v \<noteq> None \<Longrightarrow> previous st' v \<noteq> None"
    unfolding p' by (rule relax_prev_defined)
qed

lemma step_decrease:
  assumes "search_step rs cur st st'" "distances st' (Some v) = Some x"
  shows "\<exists>y. distances st (Some v) = Some y \<and> \<not> dist_less y x"
proof -
  from assms(1) obtain dc info where info: "map_of rs cur = Some info" and
    d': "distances st' =
           relax_dist dc (removeAll cur (unvisited st)) (connections info) (distances st)"
    unfolding search_step_def by blast
  from assms(2) show ?thesis unfolding d' by (rule relax_dist_decrease)
qed

lemma step_min:
  assumes "search_step rs cur st st'"
  shows "\<exists>dc. distances st (Some cur) = Some dc \<and>
     (\<forall>x\<in>set (unvisited st). \<forall>v. distances st (Some x) = Some v \<longrightarrow> \<not> dist_less v dc)"
  using assms unfolding search_step_def by blast

lemma step_current:
  assumes "search_step rs cur st st'" "inv_tables rs st"
  shows "cur \<in> set (unvisited st)" "cur \<in> set (router_ids rs)" "cur \<notin> set (unvisited st')"
  using assms by (auto simp: search_step_def inv_tables_def)

lemma dist_not_less_Finite:
  "\<not> dist_less (Finite a) x \<Longrightarrow> \<exists>b. x = Finite b \<and> b \<le> a"
  by (cases x) auto

lemma is_path_induct [consumes 1, case_names start link]:
  assumes "is_path rs s y p"
    and "s \<in> set (router_ids rs) \<Longrightarrow> P s [s]"
    and "\<And>q x y w. is_path rs s x q \<Longrightarrow> P x q \<Longrightarrow> link_weight rs x y = Some w \<Longrightarrow> P y (q @ [y])"
  shows "P y p"
  using assms(1)
proof (induction p arbitrary: y rule: rev_induct)
  case Nil
  then show ?case by (simp add: is_path_def)
next
  case (snoc z q)
  from is_path_cases [OF snoc.prems]
  show ?case
  proof
    assume "q @ [z] = [s] \<and> y = s \<and> s \<in> set (router_ids rs)"
    then show ?thesis using assms(2) by simp
  next
    assume "\<exists>q' x w. q @ [z] = q' @ [y] \<and> is_path rs s x q' \<and> link_weight rs x y = Some w"
    then obtain x w where zy: "z = y" and q: "is_path rs s x q" and w: "link_weight rs x y = Some w"
      by auto
    from assms(3) [OF q snoc.IH [OF q] w] zy show ?thesis by simp
  qed
qed

lemma lower_bound:
  assumes wf: "wf_graph rs" and src: "src = Some s"
    and so: "inv_source rs src st" and ed: "inv_edges rs st"
    and path: "is_path rs s y p"
  shows "(y \<notin> set (unvisited st) \<and>
          (\<exists>dy. distances st (Some y) = Some (Finite dy) \<and> dy \<le> path_weight rs p)) \<or>
         (\<exists>z\<in>set (unvisited st). \<exists>dz. distances st (Some z) = Some (Finite dz) \<and>
            dz \<le> path_weight rs p)"
  using path
proof (induction rule: is_path_induct)
  case start
  with so src have "distances st (Some s) = Some (Finite 0)" by (simp add: inv_source_def)
  then show ?case by (cases "s \<in> set (unvisited st)") auto
next
  case (link q x y w)
  from link.hyps have pw: "path_weight rs (q @ [y]) = path_weight rs q + w"
    using is_path_snoc by blast
  from wf link.hyps(2) have w0: "0 \<le> w" by (rule link_weight_nonneg)
  from link.hyps(2) have xk: "x \<in> set (router_ids rs)" using link_weight_routers by blast
  from link.IH show ?case
  proof
    assume "\<exists>z\<in>set (unvisited st). \<exists>dz. distances st (Some z) = Some (Finite dz) \<and>
      dz \<le> path_weight rs q"
    then obtain z dz where "z \<in> set (unvisited st)" "distances st (Some z) = Some (Finite dz)"
      "dz \<le> path_weight rs q" by blast
    with w0 pw show ?thesis by force
  next
    assume "x \<notin> set (unvisited st) \<and>
      (\<exists>dy. distances st (Some x) = Some (Finite dy) \<and> dy \<le> path_weight rs q)"
    then obtain dx where xv: "x \<notin> set (unvisited st)"
      and dx: "distances st (Some x) = Some (Finite dx)" "dx \<le> path_weight rs q" by blast
    from ed xk xv dx(1) link.hyps(2) obtain dv where
      dv: "distances st (Some y) = Some (Finite dv)" "dv \<le> dx + w"
      unfolding inv_edges_def by blast
    with dx(2) pw have "dv \<le> path_weight rs (q @ [y])" by simp
    with dv(1) show ?thesis by (cases "y \<in> set (unvisited st)") auto
  qed
qed

subsection \<open>Each part of the invariant is kept by a step\<close>

lemma pres_tables:
  assumes "search_step rs cur st st'" "inv_tables rs st"
  shows "inv_tables rs st'"
  using assms step_routers [OF assms(1)] step_unvisited [OF assms(1)]
    step_defined [OF assms(1)]
  unfolding inv_tables_def by blast

lemma pres_source:
  assumes step: "search_step rs cur st st'" and wf: "wf_graph rs"
    and tb: "inv_tables rs st" and so: "inv_source rs src st" and nn: "inv_nonneg rs st"
  shows "inv_source rs src st'"
  unfolding inv_source_def
proof (intro allI impI)
  fix s
  assume s: "src = Some s \<and> s \<in> set (router_ids rs)"
  with so have old: "distances st (Some s) = Some (Finite 0)" "previous st s = Some None"
    by (simp_all add: inv_source_def)
  from step_cases [OF step tb, of s]
  show "distances st' (Some s) = Some (Finite 0) \<and> previous st' s = Some None"
  proof
    assume "distances st' (Some s) = distances st (Some s) \<and> previous st' s = previous st s"
    with old show ?thesis by simp
  next
    assume "s \<in> set (unvisited st') \<and>
      (\<exists>a w dn. distances st (Some cur) = Some (Finite a) \<and> link_weight rs cur s = Some w \<and>
         distances st (Some s) = Some dn \<and> dist_less (Finite (a + w)) dn \<and>
         distances st' (Some s) = Some (Finite (a + w)) \<and> previous st' s = Some (Some cur))"
    then obtain a w where a: "distances st (Some cur) = Some (Finite a)"
      and w: "link_weight rs cur s = Some w" and less: "a + w < 0"
      using old by auto
    from nn a step_current(2) [OF step tb] have "0 \<le> a" by (auto simp: inv_nonneg_def)
    moreover from wf w have "0 \<le> w" by (rule link_weight_nonneg)
    ultimately show ?thesis using less by simp
  qed
qed

lemma pres_nonneg:
  assumes step: "search_step rs cur st st'" and wf: "wf_graph rs"
    and tb: "inv_tables rs st" and nn: "inv_nonneg rs st"
  shows "inv_nonneg rs st'"
  unfolding inv_nonneg_def
proof (intro ballI allI impI)
  fix v x
  assume v: "v \<in> set (router_ids rs)" and x: "distances st' (Some v) = Some (Finite x)"
  from step_cases [OF step tb, of v]
  show "0 \<le> x"
  proof
    assume "distances st' (Some v) = distances st (Some v) \<and> previous st' v = previous st v"
    with x v nn show ?thesis by (auto simp: inv_nonneg_def)
  next
    assume "v \<in> set (unvisited st') \<and>
      (\<exists>a w dn. distances st (Some cur) = Some (Finite a) \<and> link_weight rs cur v = Some w \<and>
         distances st (Some v) = Some dn \<and> dist_less (Finite (a + w)) dn \<and>
         distances st' (Some v) = Some (Finite (a + w)) \<and> previous st' v = Some (Some cur))"
    then obtain a w where a: "distances st (Some cur) = Some (Finite a)"
      and w: "link_weight rs cur v = Some w" and xe: "x = a + w"
      using x by auto
    from nn a step_current(2) [OF step tb] have "0 \<le> a" by (auto simp: inv_nonneg_def)
    moreover from wf w have "0 \<le> w" by (rule link_weight_nonneg)
    ultimately show ?thesis using xe by simp
  qed
qed

lemma pres_pred:
  assumes step: "search_step rs cur st st'"
    and tb: "inv_tables rs st" and pr: "inv_pred rs st"
  shows "inv_pred rs st'"
  unfolding inv_pred_def
proof (intro ballI allI impI)
  fix v u
  assume v: "v \<in> set (router_ids rs)" and pu: "previous st' v = Some (Some u)"
  note cur = step_current [OF step tb]
  from step_cases [OF step tb, of v]
  show "u \<in> set (router_ids rs) \<and> u \<notin> set (unvisited st') \<and>
        (\<exists>du w. distances st' (Some u) = Some (Finite du) \<and> link_weight rs u v = Some w \<and>
           distances st' (Some v) = Some (Finite (du + w)))"
  proof
    assume same: "distances st' (Some v) = distances st (Some v) \<and> previous st' v = previous st v"
    with pu have "previous st v = Some (Some u)" by simp
    with pr v obtain du w where u: "u \<in> set (router_ids rs)" "u \<notin> set (unvisited st)"
      and d: "distances st (Some u) = Some (Finite du)" "link_weight rs u v = Some w"
        "distances st (Some v) = Some (Finite (du + w))"
      unfolding inv_pred_def by blast
    from u(2) have u': "u \<notin> set (unvisited st')" using step_unvisited [OF step] by simp
    from step_frame [OF step u'] d same u u' show ?thesis by simp
  next
    assume "v \<in> set (unvisited st') \<and>
      (\<exists>a w dn. distances st (Some cur) = Some (Finite a) \<and> link_weight rs cur v = Some w \<and>
         distances st (Some v) = Some dn \<and> dist_less (Finite (a + w)) dn \<and>
         distances st' (Some v) = Some (Finite (a + w)) \<and> previous st' v = Some (Some cur))"
    then obtain a w where a: "distances st (Some cur) = Some (Finite a)"
      and w: "link_weight rs cur v = Some w"
      and d': "distances st' (Some v) = Some (Finite (a + w))"
      and p': "previous st' v = Some (Some cur)"
      by auto
    from p' pu have "u = cur" by simp
    with step_frame [OF step cur(3)] a w d' cur show ?thesis by simp
  qed
qed

lemma pres_unreached:
  assumes step: "search_step rs cur st st'"
    and tb: "inv_tables rs st" and un: "inv_unreached rs src st"
  shows "inv_unreached rs src st'"
  unfolding inv_unreached_def
proof (intro ballI impI)
  fix v
  assume v: "v \<in> set (router_ids rs)" "src \<noteq> Some v" "previous st' v = Some None"
  from step_cases [OF step tb, of v] v(3)
  have "distances st' (Some v) = distances st (Some v) \<and> previous st' v = previous st v"
    by auto
  with un v show "distances st' (Some v) = Some Infinity"
    by (simp add: inv_unreached_def)
qed

lemma pres_dest:
  assumes step: "search_step rs cur st st'" and de: "inv_dest rs dest st"
    and ne: "Some cur \<noteq> dest"
  shows "inv_dest rs dest st'"
  using de ne step_unvisited [OF step] unfolding inv_dest_def by auto

lemma pres_chain:
  assumes step: "search_step rs cur st st'"
    and tb: "inv_tables rs st" and so: "inv_source rs src st" and pr: "inv_pred rs st"
    and un: "inv_unreached rs src st" and ch: "inv_chain rs src st"
  shows "inv_chain rs src st'"
  unfolding inv_chain_def
proof (intro ballI allI impI)
  fix v x
  assume v: "v \<in> set (router_ids rs)" and vv: "v \<notin> set (unvisited st')"
    and x: "distances st' (Some v) = Some (Finite x)"
  note cur = step_current [OF step tb]
  note U' = step_unvisited [OF step]
  from step_frame [OF step vv] x have dx: "distances st (Some v) = Some (Finite x)" by simp
  have "\<exists>p s. src = Some s \<and> pred_chain (previous st) p \<and> is_path rs s v p \<and>
      path_weight rs p = x \<and> set p \<inter> set (unvisited st') = {}"
  proof (cases "v = cur")
    case False
    with vv U' have "v \<notin> set (unvisited st)" by simp
    with ch v dx obtain p s where "src = Some s" "pred_chain (previous st) p" "is_path rs s v p"
      "path_weight rs p = x" "set p \<inter> set (unvisited st) = {}"
      unfolding inv_chain_def by blast
    moreover from this(5) U' have "set p \<inter> set (unvisited st') = {}" by auto
    ultimately show ?thesis by blast
  next
    case True
    show ?thesis
    proof (cases "src = Some cur")
      case src: True
      with so cur(2) have "distances st (Some cur) = Some (Finite 0)" "previous st cur = Some None"
        by (simp_all add: inv_source_def)
      with dx True have "x = 0" "pred_chain (previous st) [cur]"
        by (simp_all add: pred_chain_single)
      moreover have "is_path rs cur cur [cur]" using cur(2) by (rule is_path_single)
      ultimately show ?thesis using src True cur(3) by (intro exI [of _ "[cur]"]) auto
    next
      case False
      from tb cur(2) have "previous st cur \<noteq> None" by (simp add: inv_tables_def)
      moreover from un cur(2) False dx True have "previous st cur \<noteq> Some None"
        by (auto simp: inv_unreached_def)
      ultimately obtain u where pu: "previous st cur = Some (Some u)" by auto
      with pr cur(2) obtain du w where u: "u \<in> set (router_ids rs)" "u \<notin> set (unvisited st)"
        and d: "distances st (Some u) = Some (Finite du)" "link_weight rs u cur = Some w"
          "distances st (Some cur) = Some (Finite (du + w))"
        unfolding inv_pred_def by blast
      from ch u d(1) obtain q s where q: "src = Some s" "pred_chain (previous st) q"
        "is_path rs s u q" "path_weight rs q = du" "set q \<inter> set (unvisited st) = {}"
        unfolding inv_chain_def by blast
      from q(3) have lq: "last q = u" by (simp add: is_path_def)
      from q(2) pu lq have "pred_chain (previous st) (q @ [cur])" by (simp add: pred_chain_snoc)
      moreover from is_path_snoc [OF q(3) d(2)] q(4)
      have "is_path rs s cur (q @ [cur])" "path_weight rs (q @ [cur]) = du + w" by simp_all
      moreover from d(3) dx True have "x = du + w" by simp
      moreover from q(5) U' cur(3) have "set (q @ [cur]) \<inter> set (unvisited st') = {}" by auto
      ultimately show ?thesis using q(1) True by blast
    qed
  qed
  then obtain p s where p: "src = Some s" "pred_chain (previous st) p" "is_path rs s v p"
    "path_weight rs p = x" "set p \<inter> set (unvisited st') = {}" by blast
  have "\<forall>n\<in>set p. previous st' n = previous st n"
    using step_frame [OF step] p(5) by blast
  from pred_chain_cong [OF this p(2)] p
  show "\<exists>p s. src = Some s \<and> pred_chain (previous st') p \<and> is_path rs s v p \<and>
      path_weight rs p = x \<and> set p \<inter> set (unvisited st') = {}" by blast
qed

lemma pres_edges:
  assumes step: "search_step rs cur st st'" and wf: "wf_graph rs"
    and tb: "inv_tables rs st" and ed: "inv_edges rs st" and ord: "inv_order rs st"
  shows "inv_edges rs st'"
  unfolding inv_edges_def
proof (intro ballI allI impI)
  fix u v du w
  assume u: "u \<in> set (router_ids rs)" and uv: "u \<notin> set (unvisited st')"
    and du': "distances st' (Some u) = Some (Finite du)" and w: "link_weight rs u v = Some w"
  note cur = step_current [OF step tb]
  note U' = step_unvisited [OF step]
  from step_frame [OF step uv] du' have du: "distances st (Some u) = Some (Finite du)" by simp
  from w have vk: "v \<in> set (router_ids rs)" using link_weight_routers by blast
  with tb have "distances st (Some v) \<noteq> None" by (simp add: inv_tables_def)
  with step_defined(1) [OF step] obtain x where x: "distances st' (Some v) = Some x" by blast
  from wf w have w0: "0 \<le> w" by (rule link_weight_nonneg)
  show "\<exists>dv. distances st' (Some v) = Some (Finite dv) \<and> dv \<le> du + w"
  proof (cases "u = cur")
    case False
    with uv U' have "u \<notin> set (unvisited st)" by simp
    with ed u du w obtain dv0 where dv0: "distances st (Some v) = Some (Finite dv0)" "dv0 \<le> du + w"
      unfolding inv_edges_def by blast
    from step_decrease [OF step x] dv0(1) have "\<not> dist_less (Finite dv0) x" by auto
    then obtain dv where "x = Finite dv" "dv \<le> dv0" using dist_not_less_Finite by blast
    with x dv0(2) show ?thesis by simp
  next
    case True
    show ?thesis
    proof (cases "v \<in> set (unvisited st')")
      case True
      from step_relaxed [OF step tb True] w du \<open>u = cur\<close>
      obtain dv' where "distances st' (Some v) = Some dv'" "\<not> dist_less (Finite (du + w)) dv'"
        by blast
      then show ?thesis using dist_not_less_Finite by blast
    next
      case False
      from step_frame [OF step False] have same: "distances st' (Some v) = distances st (Some v)"
        by simp
      show ?thesis
      proof (cases "v = cur")
        case True
        with same du \<open>u = cur\<close> w0 show ?thesis by simp
      next
        case vc: False
        with False U' have vv: "v \<notin> set (unvisited st)" by simp
        from same x have xo: "distances st (Some v) = Some x" by simp
        from ord vk vv cur(1) xo du \<open>u = cur\<close> have "\<not> dist_less (Finite du) x"
          unfolding inv_order_def by blast
        then obtain dv where "x = Finite dv" "dv \<le> du" using dist_not_less_Finite by blast
        with x w0 show ?thesis by simp
      qed
    qed
  qed
qed

lemma pres_order:
  assumes step: "search_step rs cur st st'" and wf: "wf_graph rs"
    and tb: "inv_tables rs st" and ord: "inv_order rs st"
  shows "inv_order rs st'"
  unfolding inv_order_def
proof (intro ballI allI impI)
  fix u v du dv
  assume u: "u \<in> set (router_ids rs)" and uv: "u \<notin> set (unvisited st')"
    and v: "v \<in> set (unvisited st')"
    and du': "distances st' (Some u) = Some du" and dv': "distances st' (Some v) = Some dv"
  note cur = step_current [OF step tb]
  note U' = step_unvisited [OF step]
  from step_min [OF step] obtain dc where dc: "distances st (Some cur) = Some dc"
    and mn: "\<forall>x\<in>set (unvisited st). \<forall>y. distances st (Some x) = Some y \<longrightarrow> \<not> dist_less y dc"
    by blast
  from step_frame [OF step uv] du' have du: "distances st (Some u) = Some du" by simp
  from v U' have vU: "v \<in> set (unvisited st)" by simp
  have A: "\<not> dist_less dc du"
  proof (cases "u = cur")
    case True
    with du dc show ?thesis by simp
  next
    case False
    with uv U' have "u \<notin> set (unvisited st)" by simp
    with ord u cur(1) du dc show ?thesis unfolding inv_order_def by blast
  qed
  have B: "\<not> dist_less y du" if "distances st (Some v) = Some y" for y
  proof (cases "u = cur")
    case True
    with du dc mn vU that show ?thesis by auto
  next
    case False
    with uv U' have "u \<notin> set (unvisited st)" by simp
    with ord u vU du that show ?thesis unfolding inv_order_def by blast
  qed
  from step_cases [OF step tb, of v]
  show "\<not> dist_less dv du"
  proof
    assume "distances st' (Some v) = distances st (Some v) \<and> previous st' v = previous st v"
    with dv' B show ?thesis by simp
  next
    assume "v \<in> set (unvisited st') \<and>
      (\<exists>a w dn. distances st (Some cur) = Some (Finite a) \<and> link_weight rs cur v = Some w \<and>
         distances st (Some v) = Some dn \<and> dist_less (Finite (a + w)) dn \<and>
         distances st' (Some v) = Some (Finite (a + w)) \<and> previous st' v = Some (Some cur))"
    then obtain a w where a: "distances st (Some cur) = Some (Finite a)"
      and w: "link_weight rs cur v = Some w" and d: "distances st' (Some v) = Some (Finite (a + w))"
      by auto
    from wf w have w0: "0 \<le> w" by (rule link_weight_nonneg)
    from a dc A have "\<not> dist_less (Finite a) du" by simp
    then obtain b where "du = Finite b" "b \<le> a" using dist_not_less_Finite by blast
    with d dv' w0 show ?thesis by simp
  qed
qed

lemma pres_optimal:
  assumes step: "search_step rs cur st st'" and wf: "wf_graph rs"
    and tb: "inv_tables rs st" and so: "inv_source rs src st" and ed: "inv_edges rs st"
    and op: "inv_optimal rs src st"
  shows "inv_optimal rs src st'"
  unfolding inv_optimal_def
proof (intro ballI allI impI)
  fix u s p
  assume u: "u \<in> set (router_ids rs)" and uv: "u \<notin> set (unvisited st')"
    and src: "src = Some s" and path: "is_path rs s u p"
  note cur = step_current [OF step tb]
  note U' = step_unvisited [OF step]
  from step_frame [OF step uv] have same: "distances st' (Some u) = distances st (Some u)" by simp
  show "\<exists>du. distances st' (Some u) = Some (Finite du) \<and> du \<le> path_weight rs p"
  proof (cases "u = cur")
    case False
    with uv U' have "u \<notin> set (unvisited st)" by simp
    with op u src path same show ?thesis unfolding inv_optimal_def by simp
  next
    case True
    from step_min [OF step] obtain dc where dc: "distances st (Some cur) = Some dc"
      and mn: "\<forall>x\<in>set (unvisited st). \<forall>y. distances st (Some x) = Some y \<longrightarrow> \<not> dist_less y dc"
      by blast
    from lower_bound [OF wf src so ed path] True cur(1)
    obtain z dz where z: "z \<in> set (unvisited st)" "distances st (Some z) = Some (Finite dz)"
      "dz \<le> path_weight rs p" by blast
    from mn z(1,2) have "\<not> dist_less (Finite dz) dc" by blast
    then obtain a where "dc = Finite a" "a \<le> dz" using dist_not_less_Finite by blast
    with dc z(3) same True show ?thesis by simp
  qed
qed

lemma search_inv_step:
  assumes "search_step rs cur st st'" "wf_graph rs" "search_inv rs src dest st"
    "Some cur \<noteq> dest"
  shows "search_inv rs src dest st'"
  using assms unfolding search_inv_def
  by (auto intro: pres_tables pres_source pres_nonneg pres_pred pres_unreached pres_chain
      pres_edges pres_order pres_optimal pres_dest)

lemma map_of_init_dist:
  "map_of (map (\<lambda>r. (Some r, Infinity)) ks) (Some k) = (if k \<in> set ks then Some Infinity else None)"
  by (induction ks) auto

lemma map_of_init_prev:
  "map_of (map (\<lambda>r. (r, None)) ks) k = (if k \<in> set ks then Some None else None)"
  by (induction ks) auto

lemma init_state_fields:
  "routers (init_state rs src) = rs"
  "unvisited (init_state rs src) = router_ids rs"
  "k \<in> set (router_ids rs) \<Longrightarrow>
     distances (init_state rs src) (Some k) = Some (if src = Some k then Finite 0 else Infinity)"
  "k \<in> set (router_ids rs) \<Longrightarrow> previous (init_state rs src) k = Some None"
  unfolding init_state_def router_ids_def
  by (simp_all add: map_of_init_dist map_of_init_prev del: map_map)

lemma init_state_inv: "search_inv rs src dest (init_state rs src)"
  unfolding search_inv_def
proof (intro conjI)
  show "inv_tables rs (init_state rs src)"
    by (simp add: inv_tables_def init_state_fields)
  show "inv_source rs src (init_state rs src)"
    by (simp add: inv_source_def init_state_fields)
  show "inv_nonneg rs (init_state rs src)"
    by (simp add: inv_nonneg_def init_state_fields)
  show "inv_pred rs (init_state rs src)"
    by (simp add: inv_pred_def init_state_fields)
  show "inv_unreached rs src (init_state rs src)"
    by (simp add: inv_unreached_def init_state_fields)
  show "inv_chain rs src (init_state rs src)"
    by (simp add: inv_chain_def init_state_fields)
  show "inv_edges rs (init_state rs src)"
    by (simp add: inv_edges_def init_state_fields)
  show "inv_order rs (init_state rs src)"
    by (simp add: inv_order_def init_state_fields)
  show "inv_optimal rs src (init_state rs src)"
    by (simp add: inv_optimal_def init_state_fields)
  show "inv_dest rs dest (init_state rs src)"
    by (simp add: inv_dest_def init_state_fields)
qed

lemma py_min_unvisited:
  assumes tb: "inv_tables rs st" and it: "iterates set_iter" and ne: "unvisited st \<noteq> []"
  shows "\<exists>cur dc. py_min (distances st) (set_iter (unvisited st)) = Inr cur \<and>
     cur \<in> set (unvisited st) \<and> distances st (Some cur) = Some dc \<and>
     (\<forall>x\<in>set (unvisited st). \<forall>v. distances st (Some x) = Some v \<longrightarrow> \<not> dist_less v dc)"
proof -
  from it have s: "set (set_iter (unvisited st)) = set (unvisited st)" by (simp add: iterates_def)
  with ne have "set_iter (unvisited st) \<noteq> []" by auto
  moreover from tb s have "\<forall>x\<in>set (set_iter (unvisited st)). distances st (Some x) \<noteq> None"
    by (auto simp: inv_tables_def)
  ultimately show ?thesis using py_min_spec [of "set_iter (unvisited st)" "distances st"] s by simp
qed

lemma loop_step:
  assumes tb: "inv_tables rs st" and wf: "wf_graph rs" and it: "iterates set_iter"
    and ne: "unvisited st \<noteq> []"
    and mn: "py_min (distances st) (set_iter (unvisited st)) = Inr cur"
    and info: "map_of (routers st) cur = Some info"
    and rl: "relax (removeAll cur (unvisited st)) cur (connections info)
               (distances st, previous st) = Inr (d, p)"
  shows "search_step rs cur st
           (st\<lparr>unvisited := removeAll cur (unvisited st), distances := d, previous := p\<rparr>)"
proof -
  from py_min_unvisited [OF tb it ne] mn obtain dc where cur: "cur \<in> set (unvisited st)"
    and dc: "distances st (Some cur) = Some dc"
    and least: "\<forall>x\<in>set (unvisited st). \<forall>v. distances st (Some x) = Some v \<longrightarrow> \<not> dist_less v dc"
    by auto
  from tb info have info': "map_of rs cur = Some info" by (simp add: inv_tables_def)
  have "cur \<notin> set (removeAll cur (unvisited st))" by simp
  from relax_eq [OF wf_graph_connections(1) [OF wf info'] this dc rl]
  have "d = relax_dist dc (removeAll cur (unvisited st)) (connections info) (distances st)"
    "p = relax_prev dc (removeAll cur (unvisited st)) cur (connections info) (distances st)
           (previous st)"
    by simp_all
  with cur dc least info' show ?thesis unfolding search_step_def by auto
qed

lemma main_loop_partial:
  assumes wf: "wf_graph rs"
  shows "iterates set_iter \<Longrightarrow> search_inv rs src dest st \<Longrightarrow>
     main_loop set_iter dest st = Inr st' \<Longrightarrow>
     search_inv rs src dest st' \<and> finished set_iter dest st'"
proof (induction set_iter dest st rule: main_loop.induct)
  case (1 set_iter dest st)
  note it = "1.prems"(1) and inv = "1.prems"(2) and run = "1.prems"(3)
  from inv have tb: "inv_tables rs st" by (simp add: search_inv_def)
  show ?case
  proof (cases "unvisited st = []")
    case True
    with run have "st' = st" by (simp add: main_loop.simps [of set_iter dest st])
    with inv True show ?thesis by (simp add: finished_def)
  next
    case ne: False
    from py_min_unvisited [OF tb it ne]
    obtain cur where mn: "py_min (distances st) (set_iter (unvisited st)) = Inr cur"
      and cu: "cur \<in> set (unvisited st)" by blast
    show ?thesis
    proof (cases "Some cur = dest")
      case True
      with run ne mn have "st' = st" by (simp add: main_loop.simps [of set_iter dest st])
      with inv mn True show ?thesis by (auto simp: finished_def)
    next
      case nd: False
      from run ne mn nd cu obtain info d p where info: "map_of (routers st) cur = Some info"
        and rl: "relax (removeAll cur (unvisited st)) cur (connections info)
               (distances st, previous st) = Inr (d, p)"
        and rec: "main_loop set_iter dest
             (st\<lparr>unvisited := removeAll cur (unvisited st), distances := d, previous := p\<rparr>)
           = Inr st'"
        by (auto simp: main_loop.simps [of set_iter dest st] split: option.splits sum.splits)
      let ?st1 = "st\<lparr>unvisited := removeAll cur (unvisited st), distances := d, previous := p\<rparr>"
      from loop_step [OF tb wf it ne mn info rl]
      have "search_step rs cur st ?st1" .
      from search_inv_step [OF this wf inv nd] have inv1: "search_inv rs src dest ?st1" .
      from cu have cu': "\<not> cur \<notin> set (unvisited st)" by simp
      from "1.IH" [OF ne mn nd cu' info rl refl it inv1 rec] show ?thesis .
    qed
  qed
qed

lemma float_weights_connections:
  assumes "float_weights rs" "map_of rs u = Some info"
  shows "\<forall>(n, l)\<in>set (connections info). \<bar>ad l\<bar> < float_limit"
proof -
  from assms(2) have "(u, info) \<in> set rs" by (rule map_of_SomeD)
  with assms(1) show ?thesis by (auto simp: float_weights_def list_all_iff)
qed

lemma router_lookup: "u \<in> set (router_ids rs) \<Longrightarrow> \<exists>info. map_of rs u = Some info"
  by (cases "map_of rs u") (auto simp: router_ids_def map_of_eq_None_iff)

lemma is_path_last_router: "is_path rs s t p \<Longrightarrow> t \<in> set (router_ids rs)"
  using valid_path_last [of rs p] by (auto simp: is_path_def)

text \<open>While the destination can be reached and is unvisited, the selected router has a
  finite distance.\<close>

lemma selected_finite:
  assumes wf: "wf_graph rs" and inv: "search_inv rs src dest st"
    and path: "src = Some s" "dest = Some t" "is_path rs s t p"
    and dc: "distances st (Some cur) = Some dc"
    and least: "\<forall>x\<in>set (unvisited st). \<forall>v. distances st (Some x) = Some v \<longrightarrow> \<not> dist_less v dc"
  shows "\<exists>a. dc = Finite a \<and> a \<le> path_weight rs p"
proof -
  from inv have so: "inv_source rs src st" and ed: "inv_edges rs st" and de: "inv_dest rs dest st"
    by (simp_all add: search_inv_def)
  from path(3) have "t \<in> set (router_ids rs)" by (rule is_path_last_router)
  with de path(2) have "t \<in> set (unvisited st)" by (simp add: inv_dest_def)
  with lower_bound [OF wf path(1) so ed path(3)]
  obtain z dz where z: "z \<in> set (unvisited st)" "distances st (Some z) = Some (Finite dz)"
    "dz \<le> path_weight rs p" by blast
  from least z(1,2) have "\<not> dist_less (Finite dz) dc" by blast
  then obtain a where "dc = Finite a" "a \<le> dz" using dist_not_less_Finite by blast
  with z(3) show ?thesis by auto
qed

lemma main_loop_total:
  assumes wf: "wf_graph rs"
  shows "iterates set_iter \<Longrightarrow> search_inv rs src dest st \<Longrightarrow>
     float_weights rs \<or> (\<exists>s t p. src = Some s \<and> dest = Some t \<and> is_path rs s t p) \<Longrightarrow>
     \<exists>st'. main_loop set_iter dest st = Inr st'"
proof (induction set_iter dest st rule: main_loop.induct)
  case (1 set_iter dest st)
  note it = "1.prems"(1) and inv = "1.prems"(2) and ok = "1.prems"(3)
  from inv have tb: "inv_tables rs st" by (simp add: search_inv_def)
  show ?case
  proof (cases "unvisited st = []")
    case True
    then show ?thesis by (simp add: main_loop.simps [of set_iter dest st])
  next
    case ne: False
    from py_min_unvisited [OF tb it ne]
    obtain cur dc where mn: "py_min (distances st) (set_iter (unvisited st)) = Inr cur"
      and cu: "cur \<in> set (unvisited st)" and dc: "distances st (Some cur) = Some dc"
      and least: "\<forall>x\<in>set (unvisited st). \<forall>v. distances st (Some x) = Some v \<longrightarrow> \<not> dist_less v dc"
      by blast
    show ?thesis
    proof (cases "Some cur = dest")
      case True
      with ne mn show ?thesis by (simp add: main_loop.simps [of set_iter dest st])
    next
      case nd: False
      from tb cu have ck: "cur \<in> set (router_ids rs)" by (auto simp: inv_tables_def)
      then obtain info where info': "map_of rs cur = Some info" using router_lookup by blast
      with tb have info: "map_of (routers st) cur = Some info" by (simp add: inv_tables_def)
      let ?U = "removeAll cur (unvisited st)"
      have defd: "\<forall>n\<in>set ?U. distances st (Some n) \<noteq> None"
        using tb by (auto simp: inv_tables_def)
      have nov: "dc = Infinity \<longrightarrow> (\<forall>(n, l)\<in>set (connections info). n \<in> set ?U \<longrightarrow> \<bar>ad l\<bar> < float_limit)"
        (is ?nov)
        using ok
      proof
        assume "float_weights rs"
        from float_weights_connections [OF this info'] show ?nov by auto
      next
        assume "\<exists>s t p. src = Some s \<and> dest = Some t \<and> is_path rs s t p"
        then obtain s t p where "src = Some s" "dest = Some t" "is_path rs s t p" by blast
        from selected_finite [OF wf inv this dc least] show ?nov by auto
      qed
      have "cur \<notin> set ?U" by simp
      from relax_total [OF dc defd nov this, of "previous st"]
      obtain r where r: "relax ?U cur (connections info) (distances st, previous st) = Inr r"
        by blast
      obtain d p where "r = (d, p)" by (cases r)
      with r have rl: "relax ?U cur (connections info) (distances st, previous st) = Inr (d, p)"
        by simp
      let ?st1 = "st\<lparr>unvisited := ?U, distances := d, previous := p\<rparr>"
      from loop_step [OF tb wf it ne mn info rl] have "search_step rs cur st ?st1" .
      from search_inv_step [OF this wf inv nd] have inv1: "search_inv rs src dest ?st1" .
      from cu have cu': "\<not> cur \<notin> set (unvisited st)" by simp
      from "1.IH" [OF ne mn nd cu' info rl refl it inv1 ok]
      obtain st' where "main_loop set_iter dest ?st1 = Inr st'" by blast
      with ne mn nd cu info rl show ?thesis
        by (simp add: main_loop.simps [of set_iter dest st])
    qed
  qed
qed

subsection \<open>The tables when the loop has ended\<close>

lemma realized:
  assumes inv: "search_inv rs src dest st" and v: "v \<in> set (router_ids rs)"
    and d: "distances st (Some v) = Some (Finite a)"
  shows "\<exists>p s. src = Some s \<and> pred_chain (previous st) p \<and> is_path rs s v p \<and>
     path_weight rs p = a"
proof (cases "v \<in> set (unvisited st)")
  case False
  with inv v d show ?thesis unfolding search_inv_def inv_chain_def by blast
next
  case True
  from inv have tb: "inv_tables rs st" and so: "inv_source rs src st" and pr: "inv_pred rs st"
    and un: "inv_unreached rs src st" and ch: "inv_chain rs src st"
    by (simp_all add: search_inv_def)
  show ?thesis
  proof (cases "src = Some v")
    case src: True
    with so v have "distances st (Some v) = Some (Finite 0)" "previous st v = Some None"
      by (simp_all add: inv_source_def)
    with d have "a = 0" "pred_chain (previous st) [v]" by (simp_all add: pred_chain_single)
    moreover have "is_path rs v v [v]" using v by (rule is_path_single)
    ultimately show ?thesis using src by (intro exI [of _ "[v]"]) auto
  next
    case False
    from tb v have "previous st v \<noteq> None" by (simp add: inv_tables_def)
    moreover from un v False d have "previous st v \<noteq> Some None"
      by (auto simp: inv_unreached_def)
    ultimately obtain u where pu: "previous st v = Some (Some u)" by auto
    with pr v obtain du w where u: "u \<in> set (router_ids rs)" "u \<notin> set (unvisited st)"
      and e: "distances st (Some u) = Some (Finite du)" "link_weight rs u v = Some w"
        "distances st (Some v) = Some (Finite (du + w))"
      unfolding inv_pred_def by blast
    from ch u e(1) obtain q s where q: "src = Some s" "pred_chain (previous st) q"
      "is_path rs s u q" "path_weight rs q = du"
      unfolding inv_chain_def by blast
    from q(3) have lq: "last q = u" by (simp add: is_path_def)
    from q(2) pu lq have "pred_chain (previous st) (q @ [v])" by (simp add: pred_chain_snoc)
    moreover from is_path_snoc [OF q(3) e(2)] q(4)
    have "is_path rs s v (q @ [v])" "path_weight rs (q @ [v]) = du + w" by simp_all
    moreover from e(3) d have "a = du + w" by simp
    ultimately show ?thesis using q(1) by blast
  qed
qed

lemma unreached_chain:
  assumes inv: "search_inv rs src dest st" and v: "v \<in> set (router_ids rs)"
    and d: "distances st (Some v) = Some Infinity"
  shows "pred_chain (previous st) [v]"
proof -
  from inv have tb: "inv_tables rs st" and pr: "inv_pred rs st" by (simp_all add: search_inv_def)
  from tb v have "previous st v \<noteq> None" by (simp add: inv_tables_def)
  moreover have "previous st v \<noteq> Some (Some u)" for u
    using pr v d unfolding inv_pred_def by force
  ultimately have "previous st v = Some None" by (cases "previous st v") auto
  then show ?thesis by (rule pred_chain_single)
qed

lemma visited_optimal:
  assumes inv: "search_inv rs src dest st" and src: "src = Some s"
    and v: "v \<in> set (router_ids rs)" "v \<notin> set (unvisited st)" and path: "is_path rs s v p"
  shows "\<exists>d. distances st (Some v) = Some (Finite d) \<and> min_weight rs s v d"
proof -
  from inv have op: "inv_optimal rs src st" by (simp add: search_inv_def)
  from op v src path obtain d where d: "distances st (Some v) = Some (Finite d)"
    unfolding inv_optimal_def by blast
  from realized [OF inv v(1) d] src obtain q where "is_path rs s v q" "path_weight rs q = d"
    by auto
  moreover have "\<forall>q. is_path rs s v q \<longrightarrow> d \<le> path_weight rs q"
    using op v src d unfolding inv_optimal_def by fastforce
  ultimately show ?thesis using d unfolding min_weight_def by blast
qed

lemma destination_selected:
  assumes inv: "search_inv rs src dest st" and fin: "finished set_iter dest st"
    and it: "iterates set_iter" and t: "dest = Some t" "t \<in> set (router_ids rs)"
  shows "\<exists>dt. distances st (Some t) = Some dt \<and>
     (\<forall>x\<in>set (unvisited st). \<forall>v. distances st (Some x) = Some v \<longrightarrow> \<not> dist_less v dt)"
proof -
  from inv have tb: "inv_tables rs st" and de: "inv_dest rs dest st"
    by (simp_all add: search_inv_def)
  from de t have tu: "t \<in> set (unvisited st)" by (simp add: inv_dest_def)
  then have ne: "unvisited st \<noteq> []" by auto
  with fin t(1) have "py_min (distances st) (set_iter (unvisited st)) = Inr t"
    by (auto simp: finished_def)
  with py_min_unvisited [OF tb it ne] show ?thesis by auto
qed

lemma destination_optimal:
  assumes wf: "wf_graph rs" and inv: "search_inv rs src dest st"
    and fin: "finished set_iter dest st" and it: "iterates set_iter"
    and path: "src = Some s" "dest = Some t" "is_path rs s t p"
  shows "\<exists>d q. distances st (Some t) = Some (Finite d) \<and> min_weight rs s t d \<and>
     pred_chain (previous st) q \<and> is_path rs s t q \<and> path_weight rs q = d"
proof -
  from path(3) have tk: "t \<in> set (router_ids rs)" by (rule is_path_last_router)
  from destination_selected [OF inv fin it path(2) tk]
  obtain dt where dt: "distances st (Some t) = Some dt"
    and least: "\<forall>x\<in>set (unvisited st). \<forall>v. distances st (Some x) = Some v \<longrightarrow> \<not> dist_less v dt"
    by blast
  from selected_finite [OF wf inv path dt least] obtain d where d: "dt = Finite d" by blast
  have low: "d \<le> path_weight rs p'" if "is_path rs s t p'" for p'
    using selected_finite [OF wf inv path(1,2) that dt least] d by auto
  from realized [OF inv tk] dt d path(1)
  obtain q where q: "pred_chain (previous st) q" "is_path rs s t q" "path_weight rs q = d"
    by auto
  with low dt d show ?thesis unfolding min_weight_def by blast
qed

lemma destination_unreachable:
  assumes inv: "search_inv rs src dest st" and src: "src = Some s"
    and t: "t \<in> set (router_ids rs)" and no: "\<not> (\<exists>p. is_path rs s t p)"
  shows "distances st (Some t) = Some Infinity"
proof -
  from inv t obtain dt where dt: "distances st (Some t) = Some dt"
    by (auto simp: search_inv_def inv_tables_def)
  show ?thesis
  proof (cases dt)
    case (Finite a)
    with realized [OF inv t] dt src no show ?thesis by auto
  next
    case Infinity
    with dt show ?thesis by simp
  qed
qed

lemma pred_chain_unique:
  "pred_chain prev p \<Longrightarrow> pred_chain prev q \<Longrightarrow> last p = last q \<Longrightarrow> p = q"
proof (induction p arbitrary: q rule: rev_induct)
  case Nil
  then show ?case by (simp add: pred_chain_def)
next
  case (snoc v p)
  from snoc.prems(2) obtain q' w where q: "q = q' @ [w]"
    by (cases q rule: rev_cases) (auto simp: pred_chain_def)
  with snoc.prems(3) have w: "w = v" by simp
  show ?case
  proof (cases "p = []")
    case True
    with snoc.prems(1) have "prev v = Some None" by (simp add: pred_chain_def)
    with snoc.prems(2) q w have "q' = []" by (cases "q' = []") (auto simp: pred_chain_def linked_snoc)
    with True q w show ?thesis by simp
  next
    case False
    with snoc.prems(1) have pv: "prev v = Some (Some (last p))" and pc: "pred_chain prev p"
      by (auto simp: pred_chain_def linked_snoc)
    have qn: "q' \<noteq> []"
    proof
      assume "q' = []"
      with snoc.prems(2) q w have "prev v = Some None" by (simp add: pred_chain_def)
      with pv show False by simp
    qed
    with snoc.prems(2) q w have "prev v = Some (Some (last q'))" and qc: "pred_chain prev q'"
      by (auto simp: pred_chain_def linked_snoc)
    with pv have "last p = last q'" by simp
    from snoc.IH [OF pc qc this] q w show ?thesis by simp
  qed
qed

lemma run_search_correct:
  assumes wf: "wf_graph rs" and it: "iterates set_iter"
    and run: "run_search set_iter rs src dest = Inr st"
  shows "search_inv rs src dest st \<and> finished set_iter dest st"
  using main_loop_partial [OF wf it init_state_inv] run unfolding run_search_def by blast

lemma run_search_total:
  assumes wf: "wf_graph rs" and it: "iterates set_iter"
    and ok: "float_weights rs \<or> (\<exists>s t p. src = Some s \<and> dest = Some t \<and> is_path rs s t p)"
  shows "\<exists>st. run_search set_iter rs src dest = Inr st"
  using main_loop_total [OF wf it init_state_inv ok] unfolding run_search_def by blast

lemma three_routers_wf: "wf_graph three_routers \<and> float_weights three_routers"
  by (simp add: wf_graph_def float_weights_def three_routers_def example_router_def
      example_link_def float_limit_def)

lemma iterates_insertion_order: "iterates insertion_order"
  by (simp add: iterates_def insertion_order_def)

lemma three_routers_ids:
  "router_ids three_routers = [''10.0.1.1'', ''10.0.2.1'', ''10.0.3.1'']"
  by (simp add: router_ids_def three_routers_def)

subsection \<open>The reconstructed path\<close>

lemma walk_None: "walk prev src dest None path = Some (Inr path)"
  by (simp add: walk.simps [of prev src dest None])

lemma walk_same: "walk prev src src cur path = Some (Inr path)"
  by (cases cur) (simp_all add: walk.simps [of prev src src])

lemma get_shortest_path_returns:
  assumes wf: "wf_graph rs" and it: "iterates set_iter"
    and ok: "float_weights rs \<or> (\<exists>s t p. src = Some s \<and> dest = Some t \<and> is_path rs s t p)"
    and dk: "\<forall>t. dest = Some t \<longrightarrow> t \<in> set (router_ids rs)"
  shows "\<exists>st path. run_search set_iter rs src dest = Inr st \<and>
     get_shortest_path set_iter rs src dest = Some (Inr path) \<and>
     (dest = None \<or> src = dest \<longrightarrow> path = []) \<and>
     (\<forall>t. dest = Some t \<and> src \<noteq> dest \<longrightarrow> pred_chain (previous st) path \<and> last path = t)"
proof -
  from run_search_total [OF wf it ok] obtain st where
    run: "run_search set_iter rs src dest = Inr st" by blast
  from run_search_correct [OF wf it run] have inv: "search_inv rs src dest st" by simp
  show ?thesis
  proof (cases "dest = None \<or> src = dest")
    case True
    then have "walk (previous st) src dest dest [] = Some (Inr [])"
      by (auto simp: walk_None walk_same)
    with run True show ?thesis by (auto simp: get_shortest_path_def)
  next
    case False
    then obtain t where t: "dest = Some t" and ne: "src \<noteq> dest" by auto
    with dk have tk: "t \<in> set (router_ids rs)" by simp
    from inv tk obtain dt where dt: "distances st (Some t) = Some dt"
      by (auto simp: search_inv_def inv_tables_def)
    have "\<exists>p. pred_chain (previous st) p \<and> last p = t"
    proof (cases dt)
      case (Finite a)
      with dt have "distances st (Some t) = Some (Finite a)" by simp
      from realized [OF inv tk this] obtain p s where "pred_chain (previous st) p"
        "is_path rs s t p" by blast
      then show ?thesis by (auto simp: is_path_def)
    next
      case Infinity
      with unreached_chain [OF inv tk] dt have "pred_chain (previous st) [t]" by simp
      then show ?thesis by (intro exI [of _ "[t]"]) simp
    qed
    then obtain p where p: "pred_chain (previous st) p" "last p = t" by blast
    from walk_pred_chain [OF ne p(1), of "[]"] p(2) t
    have "walk (previous st) src dest dest [] = Some (Inr (rev p))" by simp
    with run p t ne show ?thesis by (auto simp: get_shortest_path_def)
  qed
qed

subsection \<open>The router locator\<close>

lemma find_router_loop_member:
  "find_router_loop rs ks ip = Inr (Some r) \<Longrightarrow> r \<in> set ks"
  by (induction ks) (auto split: option.splits sum.splits if_splits)

lemma find_router_for_ip_member:
  "find_router_for_ip rs ip = Inr (Some r) \<Longrightarrow> r \<in> set (router_ids rs)"
  unfolding find_router_for_ip_def router_ids_def by (rule find_router_loop_member)

lemma find_router_loop_none:
  assumes "\<forall>(r, info)\<in>set rs. ips_same_subnet ip r (netmask info) = Inr False"
  shows "set ks \<subseteq> set (router_ids rs) \<Longrightarrow> find_router_loop rs ks ip = Inr None"
proof (induction ks)
  case Nil
  show ?case by simp
next
  case (Cons k ks)
  then have "k \<in> set (router_ids rs)" by simp
  from router_lookup [OF this] obtain info where info: "map_of rs k = Some info" by blast
  then have "(k, info) \<in> set rs" by (rule map_of_SomeD)
  with assms have "ips_same_subnet ip k (netmask info) = Inr False" by auto
  with info Cons show ?case by simp
qed

lemma ips_same_subnet_total:
  assumes "canonical_quad ip" "canonical_quad r" "valid_netmask m"
  shows "\<exists>b. ips_same_subnet ip r m = Inr b"
proof -
  from ipv4_to_value_canonical [OF assms(1)] obtain v1 where v1: "ipv4_to_value ip = Inr v1"
    by blast
  from ipv4_to_value_canonical [OF assms(2)] obtain v2 where v2: "ipv4_to_value r = Inr v2"
    by blast
  from assms(3) obtain n where n: "0 \<le> n" "n \<le> 32" "m = [] @ ''/'' @ py_str n"
    by (auto simp: valid_netmask_def)
  from n(1,2) have "32 - index_limit < n" "n < index_limit"
    by (simp_all add: index_limit_def)
  from get_subnet_mask_value_str [of "[]" n, OF _ this] n(3)
  obtain k where "get_subnet_mask_value m = Inr k" by auto
  with v1 v2 show ?thesis by (simp add: ips_same_subnet_def)
qed

lemma find_router_loop_total:
  assumes "wf_addressing rs" "canonical_quad ip"
  shows "set ks \<subseteq> set (router_ids rs) \<Longrightarrow> \<exists>r. find_router_loop rs ks ip = Inr r"
proof (induction ks)
  case Nil
  show ?case by simp
next
  case (Cons k ks)
  then have "k \<in> set (router_ids rs)" by simp
  from router_lookup [OF this] obtain info where info: "map_of rs k = Some info" by blast
  then have "(k, info) \<in> set rs" by (rule map_of_SomeD)
  with assms(1) have "canonical_quad k" "valid_netmask (netmask info)"
    by (auto simp: wf_addressing_def list_all_iff)
  from ips_same_subnet_total [OF assms(2) this] obtain b where
    "ips_same_subnet ip k (netmask info) = Inr b" by blast
  with info Cons show ?case by (cases b) auto
qed

lemma find_router_for_ip_total:
  assumes "wf_addressing rs" "canonical_quad ip"
  shows "\<exists>r. find_router_for_ip rs ip = Inr r"
  unfolding find_router_for_ip_def
  using find_router_loop_total [OF assms, of "map fst rs"] by (simp add: router_ids_def)

lemma main_loop_routers: "main_loop set_iter dest st = Inr st' \<Longrightarrow> routers st' = routers st"
proof (induction set_iter dest st rule: main_loop.induct)
  case (1 set_iter dest st)
  show ?case
  proof (cases "unvisited st = []")
    case True
    with "1.prems" show ?thesis by (simp add: main_loop.simps [of set_iter dest st])
  next
    case ne: False
    from "1.prems" ne obtain cur where mn: "py_min (distances st) (set_iter (unvisited st)) = Inr cur"
      by (auto simp: main_loop.simps [of set_iter dest st] split: sum.splits)
    show ?thesis
    proof (cases "Some cur = dest")
      case True
      with "1.prems" ne mn show ?thesis by (simp add: main_loop.simps [of set_iter dest st])
    next
      case nd: False
      from "1.prems" ne mn nd obtain info d p where cu: "\<not> cur \<notin> set (unvisited st)"
        and info: "map_of (routers st) cur = Some info"
        and rl: "relax (removeAll cur (unvisited st)) cur (connections info)
               (distances st, previous st) = Inr (d, p)"
        and rec: "main_loop set_iter dest
             (st\<lparr>unvisited := removeAll cur (unvisited st), distances := d, previous := p\<rparr>)
           = Inr st'"
        by (auto simp: main_loop.simps [of set_iter dest st]
            split: option.splits sum.splits if_splits)
      from "1.IH" [OF ne mn nd cu info rl refl rec] show ?thesis by simp
    qed
  qed
qed

lemma three_routers_locate:
  "find_router_for_ip three_routers ''10.0.1.7'' = Inr (Some ''10.0.1.1'')"
  "find_router_for_ip three_routers ''10.0.1.9'' = Inr (Some ''10.0.1.1'')"
  "find_router_for_ip three_routers ''10.0.3.9'' = Inr (Some ''10.0.3.1'')"
  "find_router_for_ip three_routers ''192.168.0.9'' = Inr None"
  by code_simp+

lemma routed_to_router:
  assumes wf: "wf_graph rs" and it: "iterates set_iter"
    and ok: "float_weights rs \<or> (\<exists>s p. src = Some s \<and> is_path rs s t p)"
    and tk: "t \<in> set (router_ids rs)" and ne: "src \<noteq> Some t"
  shows "\<exists>st path. run_search set_iter rs src (Some t) = Inr st \<and>
     search_inv rs src (Some t) st \<and> finished set_iter (Some t) st \<and>
     get_shortest_path set_iter rs src (Some t) = Some (Inr path) \<and>
     pred_chain (previous st) path \<and> last path = t"
proof -
  from ok have ok': "float_weights rs \<or>
      (\<exists>s t' p. src = Some s \<and> Some t = Some t' \<and> is_path rs s t' p)" by auto
  from tk have dk: "\<forall>t'. Some t = Some t' \<longrightarrow> t' \<in> set (router_ids rs)" by simp
  from get_shortest_path_returns [OF wf it ok' dk] ne
  obtain st path where run: "run_search set_iter rs src (Some t) = Inr st"
    and p: "get_shortest_path set_iter rs src (Some t) = Some (Inr path)"
      "pred_chain (previous st) path" "last path = t"
    by auto
  from run_search_correct [OF wf it run] run p show ?thesis by blast
qed

lemma shortest_route:
  assumes "wf_graph rs" "iterates set_iter"
    "find_router_for_ip rs src_ip = Inr (Some s)" "find_router_for_ip rs dest_ip = Inr (Some t)"
    "s \<noteq> t" "is_path rs s t q"
  shows "\<exists>p. dijkstras_shortest_path set_iter rs src_ip dest_ip = Some (Inr p) \<and>
     hd p = s \<and> last p = t \<and> is_path rs s t p \<and> min_weight rs s t (path_weight rs p)"
proof -
  from assms(4) have tk: "t \<in> set (router_ids rs)" by (rule find_router_for_ip_member)
  from assms(5) have ne: "Some s \<noteq> Some t" by simp
  have ok: "float_weights rs \<or> (\<exists>s' p. Some s = Some s' \<and> is_path rs s' t p)"
    using assms(6) by auto
  from routed_to_router [OF assms(1,2) ok tk ne]
  obtain st path where inv: "search_inv rs (Some s) (Some t) st"
    and fin: "finished set_iter (Some t) st"
    and p: "get_shortest_path set_iter rs (Some s) (Some t) = Some (Inr path)"
      "pred_chain (previous st) path" "last path = t"
    by blast
  from destination_optimal [OF assms(1) inv fin assms(2) refl refl assms(6)]
  obtain d q' where q: "min_weight rs s t d" "pred_chain (previous st) q'" "is_path rs s t q'"
    "path_weight rs q' = d" by blast
  from q(3) p(3) have "last path = last q'" by (simp add: is_path_def)
  from pred_chain_unique [OF p(2) q(2) this] have "path = q'" .
  with q p(1) assms(3,4) show ?thesis
    by (auto simp: dijkstras_shortest_path_def is_path_def)
qed

lemma three_routers_links:
  "link_weight three_routers u v = Some w \<Longrightarrow>
   (u, v, w) \<in> {(''10.0.1.1'', ''10.0.2.1'', 10), (''10.0.1.1'', ''10.0.3.1'', 20),
                (''10.0.2.1'', ''10.0.1.1'', 10), (''10.0.2.1'', ''10.0.3.1'', 5),
                (''10.0.3.1'', ''10.0.2.1'', 5), (''10.0.3.1'', ''10.0.1.1'', 20)}"
  by (auto simp: link_weight_def three_routers_def example_router_def example_link_def
      router_ids_def split: if_splits option.splits)

lemma three_routers_link_values:
  "link_weight three_routers ''10.0.1.1'' ''10.0.2.1'' = Some 10"
  "link_weight three_routers ''10.0.2.1'' ''10.0.3.1'' = Some 5"
  "link_weight three_routers ''10.0.1.1'' ''10.0.3.1'' = Some 20"
  by code_simp+

lemma three_routers_best:
  assumes p: "is_path three_routers ''10.0.1.1'' ''10.0.3.1'' p"
    and w: "path_weight three_routers p \<le> 15"
  shows "p = [''10.0.1.1'', ''10.0.2.1'', ''10.0.3.1'']"
proof -
  note wf = conjunct1 [OF three_routers_wf]
  from p obtain y r where p1: "p = ''10.0.1.1'' # y # r"
    by (cases p; cases "tl p") (auto simp: is_path_def)
  with p obtain w1 where l1: "link_weight three_routers ''10.0.1.1'' y = Some w1"
    and v1: "valid_path three_routers (y # r)"
    by (auto simp: is_path_def)
  from w p1 l1 have w1: "w1 + path_weight three_routers (y # r) \<le> 15" by simp
  from path_weight_nonneg [OF wf v1] w1 have "w1 \<le> 15" by simp
  with three_routers_links [OF l1] have y: "y = ''10.0.2.1''" "w1 = 10" by auto
  from p p1 y obtain z r' where r: "r = z # r'"
    by (cases r) (auto simp: is_path_def)
  with v1 y obtain w2 where l2: "link_weight three_routers ''10.0.2.1'' z = Some w2"
    and v2: "valid_path three_routers (z # r')"
    by auto
  from w1 y r l2 have w2: "w2 + path_weight three_routers (z # r') \<le> 5" by simp
  from path_weight_nonneg [OF wf v2] w2 have "w2 \<le> 5" by simp
  with three_routers_links [OF l2] have z: "z = ''10.0.3.1''" "w2 = 5" by auto
  have "r' = []"
  proof (cases r')
    case Nil
    then show ?thesis .
  next
    case (Cons u r'')
    with v2 z obtain w3 where l3: "link_weight three_routers ''10.0.3.1'' u = Some w3"
      and v3: "valid_path three_routers (u # r'')"
      by auto
    from w2 z Cons l3 have "w3 + path_weight three_routers (u # r'') \<le> 0" by simp
    with path_weight_nonneg [OF wf v3] have "w3 \<le> 0" by simp
    with three_routers_links [OF l3] show ?thesis by auto
  qed
  with p1 y r z show ?thesis by simp
qed

lemma three_routers_route:
  assumes "iterates set_iter"
  shows "dijkstras_shortest_path set_iter three_routers ''10.0.1.7'' ''10.0.3.9'' =
     Some (Inr [''10.0.1.1'', ''10.0.2.1'', ''10.0.3.1''])"
proof -
  let ?q = "[''10.0.1.1'', ''10.0.2.1'', ''10.0.3.1'']"
  have q: "is_path three_routers ''10.0.1.1'' ''10.0.3.1'' ?q"
    by (simp add: is_path_def three_routers_link_values three_routers_ids)
  have qw: "path_weight three_routers ?q = 15" by (simp add: three_routers_link_values)
  have ne: "''10.0.1.1'' \<noteq> ''10.0.3.1''" by simp
  from shortest_route [OF conjunct1 [OF three_routers_wf] assms
      three_routers_locate(1) three_routers_locate(3) ne q]
  obtain p where p: "dijkstras_shortest_path set_iter three_routers ''10.0.1.7'' ''10.0.3.9'' =
      Some (Inr p)" "is_path three_routers ''10.0.1.1'' ''10.0.3.1'' p"
    "min_weight three_routers ''10.0.1.1'' ''10.0.3.1'' (path_weight three_routers p)"
    by blast
  from p(3) q qw have "path_weight three_routers p \<le> 15" by (auto simp: min_weight_def)
  from three_routers_best [OF p(2) this] p(1) show ?thesis by simp
qed

subsection \<open>Two routers without links\<close>

lemma two_islands_no_link: "link_weight two_islands u v = None"
  by (auto simp: link_weight_def two_islands_def example_router_def split: option.splits)

lemma two_islands_no_path: "\<not> (\<exists>p. is_path two_islands ''10.0.1.1'' ''10.0.2.1'' p)"
proof
  assume "\<exists>p. is_path two_islands ''10.0.1.1'' ''10.0.2.1'' p"
  then obtain p where "is_path two_islands ''10.0.1.1'' ''10.0.2.1'' p" ..
  from is_path_cases [OF this] show False by (auto simp: two_islands_no_link)
qed

lemma two_islands_wf: "wf_graph two_islands \<and> float_weights two_islands"
  by (simp add: wf_graph_def float_weights_def two_islands_def example_router_def)

lemma two_islands_locate:
  "find_router_for_ip two_islands ''10.0.1.7'' = Inr (Some ''10.0.1.1'')"
  "find_router_for_ip two_islands ''10.0.2.9'' = Inr (Some ''10.0.2.1'')"
  by code_simp+

subsection \<open>Addresses on no subnet\<close>

lemma three_routers_unmatched:
  "list_all (\<lambda>(r, info). ips_same_subnet ''192.168.0.9'' r (netmask info) = Inr False)
     three_routers"
  by code_simp

subsection \<open>A weight that does not convert to a float\<close>

lemma three_routers_addressing: "wf_addressing three_routers"
  by code_simp

lemma canonical_examples:
  "canonical_quad ''10.0.1.7''" "canonical_quad ''192.168.0.9''"
  by code_simp+

section \<open>The program on the objects\<close>

subsection \<open>Objects that a statement leaves alone\<close>

lemma fetch_less: "fetch h a = Some ob \<Longrightarrow> a < length h"
  by (simp add: fetch_def split: if_splits)

lemma fetch_append: "fetch (h @ [ob]) a = (if a = length h then Some ob else fetch h a)"
  by (simp add: fetch_def nth_append)

lemma fetch_update:
  "fetch (h[a := ob]) b = (if b = a \<and> a < length h then Some ob else fetch h b)"
  by (simp add: fetch_def)

lemma kept_length: "take (length h0) h = h0 \<Longrightarrow> length h0 \<le> length h"
proof -
  assume "take (length h0) h = h0"
  then have "length (take (length h0) h) = length h0" by simp
  then show ?thesis by simp
qed

lemma fetch_kept:
  assumes "take (length h0) h = h0" "fetch h0 a = Some ob"
  shows "fetch h a = Some ob"
proof -
  from assms(2) have a: "a < length h0" and ob: "h0 ! a = ob"
    by (simp_all add: fetch_def split: if_splits)
  from a have "take (length h0) h ! a = h ! a" by simp
  with assms(1) ob have "h ! a = ob" by simp
  moreover from a kept_length [OF assms(1)] have "a < length h" by simp
  ultimately show ?thesis by (simp add: fetch_def)
qed

lemma kept_update: "take n h = h0 \<Longrightarrow> n \<le> a \<Longrightarrow> take n (h[a := ob]) = h0"
  by simp

lemma kept_append: "take n h = h0 \<Longrightarrow> n \<le> length h \<Longrightarrow> take n (h @ [ob]) = h0"
  by simp

lemma kept_trans:
  assumes "take (length h0) h1 = h0" "take (length h1) h2 = h1"
  shows "take (length h0) h2 = h0"
proof -
  from kept_length [OF assms(1)] have "take (length h0) (take (length h1) h2) = take (length h0) h2"
    by (simp add: min_def)
  with assms show ?thesis by simp
qed

subsection \<open>The network in a store\<close>

lemma load_links_kept:
  assumes "take (length h0) h = h0"
  shows "load_links h0 kv = Some ls \<Longrightarrow> load_links h kv = Some ls"
proof (induction kv arbitrary: ls)
  case Nil
  then show ?case by simp
next
  case (Cons x kv)
  obtain n a where x: "x = (n, a)" by (cases x)
  from Cons.prems x obtain l ls' where l: "fetch h0 a = Some (Link l)"
    and ls': "load_links h0 kv = Some ls'" and ls: "ls = (n, l) # ls'"
    by (auto split: option.splits obj.splits)
  from fetch_kept [OF assms l] Cons.IH [OF ls'] x ls show ?case by simp
qed

lemma load_entry_kept:
  assumes "take (length h0) h = h0" "load_entry h0 a = Some info"
  shows "load_entry h a = Some info"
proof -
  from assms(2) obtain c m k p kv cs where e: "fetch h0 a = Some (Entry c m k p)"
    and c: "fetch h0 c = Some (Connections kv)" and cs: "load_links h0 kv = Some cs"
    and info: "info = \<lparr>connections = cs, netmask = m, if_count = k, if_prefix = p\<rparr>"
    by (auto simp: load_entry_def split: option.splits obj.splits)
  from fetch_kept [OF assms(1) e] fetch_kept [OF assms(1) c] load_links_kept [OF assms(1) cs] info
  show ?thesis by (simp add: load_entry_def)
qed

lemma load_entries_kept:
  assumes "take (length h0) h = h0"
  shows "load_entries h0 kv = Some rs \<Longrightarrow> load_entries h kv = Some rs"
proof (induction kv arbitrary: rs)
  case Nil
  then show ?case by simp
next
  case (Cons x kv)
  obtain r a where x: "x = (r, a)" by (cases x)
  from Cons.prems x obtain info rs' where i: "load_entry h0 a = Some info"
    and rs': "load_entries h0 kv = Some rs'" and rs: "rs = (r, info) # rs'"
    by (auto split: option.splits)
  from load_entry_kept [OF assms i] Cons.IH [OF rs'] x rs show ?case by simp
qed

lemma load_network_kept:
  assumes "take (length h0) h = h0" "load_network h0 a = Some rs"
  shows "load_network h a = Some rs"
proof -
  from assms(2) obtain kv where r: "fetch h0 a = Some (Routers kv)"
    and e: "load_entries h0 kv = Some rs"
    by (auto simp: load_network_def split: option.splits obj.splits)
  from fetch_kept [OF assms(1) r] load_entries_kept [OF assms(1) e]
  show ?thesis by (simp add: load_network_def)
qed

lemma load_entries_keys: "load_entries h kv = Some rs \<Longrightarrow> map fst rs = map fst kv"
  by (induction kv arbitrary: rs) (auto split: option.splits)

lemma load_entries_item:
  "load_entries h kv = Some rs \<Longrightarrow>
   (case map_of kv r of
      None \<Rightarrow> map_of rs r = None
    | Some e \<Rightarrow> (\<exists>info. map_of rs r = Some info \<and> load_entry h e = Some info))"
  by (induction kv arbitrary: rs) (auto split: option.splits)

lemma routers_keys_loaded: "load_network h a = Some rs \<Longrightarrow> routers_keys h a = Inr (map fst rs)"
  by (auto simp: load_network_def routers_keys_def load_entries_keys split: option.splits obj.splits)

lemma routers_item_loaded:
  assumes "load_network h a = Some rs"
  shows "case map_of rs r of
           None \<Rightarrow> routers_item h a r = Inl KeyError
         | Some info \<Rightarrow> (\<exists>e. routers_item h a r = Inr e \<and> load_entry h e = Some info)"
proof -
  from assms obtain kv where r: "fetch h a = Some (Routers kv)"
    and e: "load_entries h kv = Some rs"
    by (auto simp: load_network_def split: option.splits obj.splits)
  from load_entries_item [OF e, of r] r show ?thesis
    by (auto simp: routers_item_def split: option.splits)
qed

lemma entry_netmask_loaded: "load_entry h e = Some info \<Longrightarrow> entry_netmask h e = Inr (netmask info)"
  by (auto simp: load_entry_def entry_netmask_def split: option.splits obj.splits)

lemma entry_items_loaded:
  "load_entry h e = Some info \<Longrightarrow>
   \<exists>kv. entry_items h e = Inr kv \<and> load_links h kv = Some (connections info)"
  by (auto simp: load_entry_def entry_items_def split: option.splits obj.splits)

subsection \<open>The router locator on the objects\<close>

lemma find_router_loop_store_eq:
  assumes "load_network h a = Some rs"
  shows "find_router_loop_store h a ks ip = find_router_loop rs ks ip"
proof (induction ks)
  case Nil
  show ?case by simp
next
  case (Cons r ks)
  show ?case
  proof (cases "map_of rs r")
    case None
    with routers_item_loaded [OF assms, of r] show ?thesis by simp
  next
    case (Some info)
    with routers_item_loaded [OF assms, of r] obtain e where
      e: "routers_item h a r = Inr e" "load_entry h e = Some info" by auto
    from entry_netmask_loaded [OF e(2)] e(1) Some Cons.IH show ?thesis
      by (simp split: sum.splits)
  qed
qed

lemma find_router_for_ip_store_eq:
  "load_network h a = Some rs \<Longrightarrow> find_router_for_ip_store h a ip = find_router_for_ip rs ip"
  by (simp add: find_router_for_ip_store_def find_router_for_ip_def routers_keys_loaded
      find_router_loop_store_eq)

subsection \<open>The inner loop on the objects\<close>

lemma holds_tables_relaxed:
  assumes "holds_tables h0 h d u p dm unv pm"
  shows "holds_tables h0 (h[d := Distances dm', p := Previous pm']) d u p dm' unv pm'"
proof -
  from assms have k: "take (length h0) h = h0" "length h0 \<le> d" "length h0 \<le> u" "length h0 \<le> p"
    and f: "fetch h d = Some (Distances dm)" "fetch h u = Some (Unvisited unv)"
      "fetch h p = Some (Previous pm)"
    by (simp_all add: holds_tables_def)
  from f have ne: "d \<noteq> p" "u \<noteq> d" "u \<noteq> p" by auto
  from f have lt: "d < length h" "p < length h" by (auto dest: fetch_less)
  from k have "take (length h0) (h[d := Distances dm', p := Previous pm']) = h0" by simp
  moreover from ne lt have "fetch (h[d := Distances dm', p := Previous pm']) d = Some (Distances dm')"
    by (simp add: fetch_update)
  moreover from ne lt f have "fetch (h[d := Distances dm', p := Previous pm']) u = Some (Unvisited unv)"
    by (simp add: fetch_update)
  moreover from ne lt have "fetch (h[d := Distances dm', p := Previous pm']) p = Some (Previous pm')"
    by (simp add: fetch_update)
  ultimately show ?thesis using k by (simp add: holds_tables_def)
qed

lemma relax_store_refines:
  assumes "load_links h0 kv = Some cs" "holds_tables h0 h d u p dm unv pm"
  shows "\<exists>h'. relax_store d u p cur kv h = (map_sum id (\<lambda>x. ()) (relax unv cur cs (dm, pm)), h') \<and>
      take (length h0) h' = h0 \<and>
      (\<forall>dm' pm'. relax unv cur cs (dm, pm) = Inr (dm', pm') \<longrightarrow>
         holds_tables h0 h' d u p dm' unv pm')"
  using assms
proof (induction kv arbitrary: cs h dm pm)
  case Nil
  then show ?case by (simp add: holds_tables_def)
next
  case (Cons x kv)
  obtain nb dst where x: "x = (nb, dst)" by (cases x)
  from Cons.prems(1) x obtain l ls where l: "fetch h0 dst = Some (Link l)"
    and ls: "load_links h0 kv = Some ls" and cs: "cs = (nb, l) # ls"
    by (auto split: option.splits obj.splits)
  note t = Cons.prems(2)
  from t have k: "take (length h0) h = h0"
    and f: "fetch h d = Some (Distances dm)" "fetch h u = Some (Unvisited unv)"
      "fetch h p = Some (Previous pm)"
    by (simp_all add: holds_tables_def)
  from fetch_kept [OF k l] have lad: "link_ad h dst = Inr (ad l)" by (simp add: link_ad_def)
  from f have gu: "get_unvisited h u = Inr unv" by (simp add: get_unvisited_def)
  from f have gd: "\<And>key. get_distance h d key =
      (case dm key of None \<Rightarrow> Inl KeyError | Some v \<Rightarrow> Inr v)"
    by (simp add: get_distance_def)
  show ?case
  proof (cases "nb \<in> set unv")
    case False
    from Cons.IH [OF ls t] False x cs gu show ?thesis by simp
  next
    case nbu: True
    show ?thesis
    proof (cases "dm (Some cur)")
      case None
      with nbu x cs gu gd k show ?thesis by simp
    next
      case (Some dc)
      show ?thesis
      proof (cases "dist_add dc (ad l)")
        case (Inl e)
        with Some nbu x cs gu gd lad k show ?thesis by simp
      next
        case (Inr nd)
        show ?thesis
        proof (cases "dm (Some nb)")
          case None
          with Inr Some nbu x cs gu gd lad k show ?thesis by simp
        next
          case dn: (Some dn)
          show ?thesis
          proof (cases "dist_less nd dn")
            case False
            from Cons.IH [OF ls t] False dn Inr Some nbu x cs gu gd lad show ?thesis by simp
          next
            case True
            let ?dm = "dm(Some nb \<mapsto> nd)"
            let ?pm = "pm(nb \<mapsto> Some cur)"
            let ?h1 = "h[d := Distances ?dm]"
            let ?h2 = "?h1[p := Previous ?pm]"
            from f have sd: "set_distance h d (Some nb) nd = Inr ?h1"
              by (simp add: set_distance_def)
            from f have "d \<noteq> p" by auto
            with f have "fetch ?h1 p = Some (Previous pm)" by (simp add: fetch_update)
            then have sp: "set_previous ?h1 p nb (Some cur) = Inr ?h2"
              by (simp add: set_previous_def)
            have t2: "holds_tables h0 ?h2 d u p ?dm unv ?pm"
              by (rule holds_tables_relaxed [OF t])
            have r: "relax unv cur cs (dm, pm) = relax unv cur ls (?dm, ?pm)"
              using True dn Inr Some nbu cs by simp
            have rs: "relax_store d u p cur (x # kv) h = relax_store d u p cur kv ?h2"
              using True dn Inr Some nbu x gu gd lad sd sp by simp
            from Cons.IH [OF ls t2] show ?thesis unfolding r rs .
          qed
        qed
      qed
    qed
  qed
qed

subsection \<open>The main loop on the objects\<close>

lemma routers_item_kept:
  assumes "take (length h0) h = h0" "load_network h0 a = Some rs"
  shows "routers_item h a r = routers_item h0 a r"
proof -
  from assms(2) obtain kv where r: "fetch h0 a = Some (Routers kv)"
    by (auto simp: load_network_def split: option.splits obj.splits)
  from fetch_kept [OF assms(1) r] r show ?thesis by (simp add: routers_item_def)
qed

lemma entry_items_kept:
  assumes "take (length h0) h = h0" "entry_items h0 e = Inr kv"
  shows "entry_items h e = Inr kv"
proof -
  from assms(2) obtain c m k p where e: "fetch h0 e = Some (Entry c m k p)"
    and c: "fetch h0 c = Some (Connections kv)"
    by (auto simp: entry_items_def split: option.splits obj.splits)
  from fetch_kept [OF assms(1) e] fetch_kept [OF assms(1) c] show ?thesis
    by (simp add: entry_items_def)
qed

lemma holds_tables_removed:
  assumes "holds_tables h0 h d u p dm unv pm"
  shows "holds_tables h0 (h[u := Unvisited unv']) d u p dm unv' pm"
proof -
  from assms have k: "take (length h0) h = h0" "length h0 \<le> d" "length h0 \<le> u" "length h0 \<le> p"
    and f: "fetch h d = Some (Distances dm)" "fetch h u = Some (Unvisited unv)"
      "fetch h p = Some (Previous pm)"
    by (simp_all add: holds_tables_def)
  from f have ne: "d \<noteq> u" "p \<noteq> u" by auto
  from f have lt: "u < length h" by (auto dest: fetch_less)
  from k have "take (length h0) (h[u := Unvisited unv']) = h0" by simp
  moreover from ne f have "fetch (h[u := Unvisited unv']) d = Some (Distances dm)"
    by (simp add: fetch_update)
  moreover from lt have "fetch (h[u := Unvisited unv']) u = Some (Unvisited unv')"
    by (simp add: fetch_update)
  moreover from ne f have "fetch (h[u := Unvisited unv']) p = Some (Previous pm)"
    by (simp add: fetch_update)
  ultimately show ?thesis using k by (simp add: holds_tables_def)
qed

lemma main_loop_store_refines:
  "load_network h0 a = Some (routers st) \<Longrightarrow>
   holds_tables h0 h d u p (distances st) (unvisited st) (previous st) \<Longrightarrow>
   \<exists>h'. main_loop_store set_iter a d u p dest h =
           Some (map_sum id (\<lambda>x. ()) (main_loop set_iter dest st), h') \<and>
        take (length h0) h' = h0 \<and>
        (\<forall>st'. main_loop set_iter dest st = Inr st' \<longrightarrow>
           holds_tables h0 h' d u p (distances st') (unvisited st') (previous st'))"
proof (induction set_iter dest st arbitrary: h rule: main_loop.induct)
  case (1 set_iter dest st)
  note net = "1.prems"(1) and t = "1.prems"(2)
  from t have k: "take (length h0) h = h0"
    and f: "fetch h d = Some (Distances (distances st))"
      "fetch h u = Some (Unvisited (unvisited st))"
      "fetch h p = Some (Previous (previous st))"
    by (simp_all add: holds_tables_def)
  from f have gu: "get_unvisited h u = Inr (unvisited st)" by (simp add: get_unvisited_def)
  from f have mu: "min_unvisited set_iter h u d = py_min (distances st) (set_iter (unvisited st))"
    by (simp add: min_unvisited_def)
  note fs = main_loop.simps [of set_iter dest st]
  note ss = main_loop_store.simps [of set_iter a d u p dest h]
  show ?case
  proof (cases "unvisited st = []")
    case True
    with gu k t show ?thesis by (simp add: fs ss)
  next
    case ne: False
    show ?thesis
    proof (cases "py_min (distances st) (set_iter (unvisited st))")
      case (Inl e)
      with ne gu mu k show ?thesis by (simp add: fs ss)
    next
      case mn: (Inr cur)
      show ?thesis
      proof (cases "Some cur = dest")
        case True
        with mn ne gu mu k t show ?thesis by (simp add: fs ss)
      next
        case nd: False
        show ?thesis
        proof (cases "cur \<in> set (unvisited st)")
          case False
          with f have "remove_unvisited h u cur = Inl KeyError" by (simp add: remove_unvisited_def)
          with False nd mn ne gu mu k show ?thesis by (simp add: fs ss)
        next
          case cu: True
          let ?unv = "removeAll cur (unvisited st)"
          let ?h1 = "h[u := Unvisited ?unv]"
          from cu f have ru: "remove_unvisited h u cur = Inr ?h1"
            by (simp add: remove_unvisited_def)
          have t1: "holds_tables h0 ?h1 d u p (distances st) ?unv (previous st)"
            by (rule holds_tables_removed [OF t])
          then have k1: "take (length h0) ?h1 = h0" by (simp add: holds_tables_def)
          note ri = routers_item_kept [OF k1 net, of cur]
          show ?thesis
          proof (cases "map_of (routers st) cur")
            case None
            with routers_item_loaded [OF net, of cur] ri
            have "routers_item ?h1 a cur = Inl KeyError" by simp
            with None cu nd mn ne gu mu ru k1 show ?thesis by (simp add: fs ss)
          next
            case info: (Some info)
            with routers_item_loaded [OF net, of cur] obtain e where
              e: "routers_item h0 a cur = Inr e" "load_entry h0 e = Some info" by auto
            from entry_items_loaded [OF e(2)] obtain kv where
              kv: "entry_items h0 e = Inr kv" "load_links h0 kv = Some (connections info)" by blast
            from ri e(1) have ri1: "routers_item ?h1 a cur = Inr e" by simp
            note ei1 = entry_items_kept [OF k1 kv(1)]
            from relax_store_refines [OF kv(2) t1, of cur] obtain h2 where
              rs: "relax_store d u p cur kv ?h1 =
                 (map_sum id (\<lambda>x. ()) (relax ?unv cur (connections info)
                    (distances st, previous st)), h2)"
              and k2: "take (length h0) h2 = h0"
              and t2: "\<forall>dm' pm'. relax ?unv cur (connections info) (distances st, previous st) =
                   Inr (dm', pm') \<longrightarrow> holds_tables h0 h2 d u p dm' ?unv pm'"
              by blast
            have st: "main_loop_store set_iter a d u p dest h =
               (case relax_store d u p cur kv ?h1 of
                  (Inl e, h2) \<Rightarrow> Some (Inl e, h2)
                | (Inr ok, h2) \<Rightarrow> main_loop_store set_iter a d u p dest h2)"
              using cu nd mn ne gu mu ru ri1 ei1 by (simp add: ss)
            show ?thesis
            proof (cases "relax ?unv cur (connections info) (distances st, previous st)")
              case (Inl e)
              with info cu nd mn ne have "main_loop set_iter dest st = Inl e" by (simp add: fs)
              moreover from Inl rs st have "main_loop_store set_iter a d u p dest h = Some (Inl e, h2)"
                by simp
              ultimately show ?thesis using k2 by simp
            next
              case (Inr r)
              obtain dm' pm' where r: "r = (dm', pm')" by (cases r)
              let ?st1 = "st\<lparr>unvisited := ?unv, distances := dm', previous := pm'\<rparr>"
              from Inr r have rl: "relax ?unv cur (connections info) (distances st, previous st) =
                  Inr (dm', pm')" by simp
              with info cu nd mn ne have m: "main_loop set_iter dest st = main_loop set_iter dest ?st1"
                by (simp add: fs)
              from rl rs st have m': "main_loop_store set_iter a d u p dest h =
                  main_loop_store set_iter a d u p dest h2" by simp
              from net have net1: "load_network h0 a = Some (routers ?st1)" by simp
              from t2 rl have t3: "holds_tables h0 h2 d u p (distances ?st1) (unvisited ?st1)
                  (previous ?st1)" by simp
              from cu have cu': "\<not> cur \<notin> set (unvisited st)" by simp
              from "1.IH" [OF ne mn nd cu' info rl refl net1 t3] show ?thesis
                unfolding m m' .
            qed
          qed
        qed
      qed
    qed
  qed
qed

subsection \<open>The reconstruction loop on the objects\<close>

lemma walk_store_refines:
  assumes "walk pm src dest cur xs = Some r"
  shows "take (length h0) h = h0 \<Longrightarrow> length h0 \<le> pa \<Longrightarrow>
     fetch h p = Some (Previous pm) \<Longrightarrow> fetch h pa = Some (Path xs) \<Longrightarrow>
     \<exists>h'. walk_store p pa src dest cur h = Some (map_sum id (\<lambda>x. ()) r, h') \<and>
        take (length h0) h' = h0 \<and> length h' = length h \<and>
        (\<forall>ys. r = Inr ys \<longrightarrow> fetch h' pa = Some (Path ys))"
  using assms
proof (induction arbitrary: h rule: walk.raw_induct [rotated 1, consumes 1])
  case (1 walk' pm src dest cur xs r)
  show ?case
  proof (cases cur)
    case None
    with "1.hyps" "1.prems" show ?thesis
      by (subst walk_store.simps) auto
  next
    case (Some c)
    show ?thesis
    proof (cases "dest = src")
      case True
      with Some "1.hyps" "1.prems" show ?thesis by (subst walk_store.simps) auto
    next
      case False
      let ?h1 = "h[pa := Path (xs @ [c])]"
      from "1.prems"(4) have ap: "append_path h pa c = Inr ?h1" by (simp add: append_path_def)
      from "1.prems"(3,4) have ne: "p \<noteq> pa" by auto
      with "1.prems"(3) have fp: "fetch ?h1 p = Some (Previous pm)" by (simp add: fetch_update)
      from "1.prems"(4) have fa: "fetch ?h1 pa = Some (Path (xs @ [c]))"
        by (auto simp: fetch_update dest: fetch_less)
      from "1.prems"(1,2) have k1: "take (length h0) ?h1 = h0" by simp
      show ?thesis
      proof (cases "pm c")
        case None
        with fp have "get_previous ?h1 p c = Inl KeyError" by (simp add: get_previous_def)
        with None False Some "1.hyps" ap k1 show ?thesis by (subst walk_store.simps) auto
      next
        case nx: (Some nxt)
        with fp have gp: "get_previous ?h1 p c = Inr nxt" by (simp add: get_previous_def)
        from nx False Some "1.hyps" have w: "walk' pm src dest nxt (xs @ [c]) = Some r" by simp
        from "1.IH" [OF w k1 "1.prems"(2) fp fa] obtain h' where
          "walk_store p pa src dest nxt ?h1 = Some (map_sum id (\<lambda>x. ()) r, h')"
          "take (length h0) h' = h0" "length h' = length ?h1"
          "\<forall>ys. r = Inr ys \<longrightarrow> fetch h' pa = Some (Path ys)" by blast
        with False Some ap gp show ?thesis by (subst walk_store.simps) auto
      qed
    qed
  qed
qed

lemma walk_store_returns:
  assumes "walk_store p pa src dest cur h = Some out"
  shows "fetch h p = Some (Previous pm) \<Longrightarrow> fetch h pa = Some (Path xs) \<Longrightarrow>
     \<exists>r. walk pm src dest cur xs = Some r"
  using assms
proof (induction arbitrary: xs rule: walk_store.raw_induct [rotated 1, consumes 1])
  case (1 walk_store' p pa src dest cur h out)
  show ?case
  proof (cases cur)
    case None
    then show ?thesis by (subst walk.simps) auto
  next
    case (Some c)
    show ?thesis
    proof (cases "dest = src")
      case True
      with Some show ?thesis by (subst walk.simps) auto
    next
      case False
      let ?h1 = "h[pa := Path (xs @ [c])]"
      from "1.prems"(2) have ap: "append_path h pa c = Inr ?h1" by (simp add: append_path_def)
      from "1.prems"(1,2) have ne: "p \<noteq> pa" by auto
      with "1.prems"(1) have fp: "fetch ?h1 p = Some (Previous pm)" by (simp add: fetch_update)
      from "1.prems"(2) have fa: "fetch ?h1 pa = Some (Path (xs @ [c]))"
        by (auto simp: fetch_update dest: fetch_less)
      show ?thesis
      proof (cases "pm c")
        case None
        with False Some show ?thesis by (subst walk.simps) auto
      next
        case nx: (Some nxt)
        with fp have gp: "get_previous ?h1 p c = Inr nxt" by (simp add: get_previous_def)
        with False Some ap "1.hyps" have "walk_store' p pa src dest nxt ?h1 = Some out" by simp
        from "1.IH" [OF this fp fa] nx False Some show ?thesis by (subst walk.simps) auto
      qed
    qed
  qed
qed

subsection \<open>The path computation on the objects\<close>

lemma init_store_loaded:
  assumes "load_network h a = Some rs"
  shows "\<exists>d u p h'. init_store a src h = (Inr (d, u, p), h') \<and>
     holds_tables h h' d u p (distances (init_state rs src)) (unvisited (init_state rs src))
       (previous (init_state rs src))"
proof -
  from routers_keys_loaded [OF assms] show ?thesis
    by (simp add: init_store_def alloc_def set_distance_def init_state_def holds_tables_def
        fetch_def nth_append del: map_map)
qed

lemma reconstruct_store_refines:
  assumes k: "take (length h0) h = h0" and p: "fetch h p = Some (Previous pm)"
  shows "map_option returned (reconstruct_store p src dest h) =
       (case walk pm src dest dest [] of
          None \<Rightarrow> None
        | Some (Inl e) \<Rightarrow> Some (Inl e)
        | Some (Inr path) \<Rightarrow> Some (Inr (rev path))) \<and>
     (\<forall>out h'. reconstruct_store p src dest h = Some (out, h') \<longrightarrow> take (length h0) h' = h0)"
proof -
  let ?pa = "length h"
  let ?h1 = "h @ [Path []]"
  from kept_length [OF k] have le: "length h0 \<le> ?pa" .
  with k have k1: "take (length h0) ?h1 = h0" by simp
  from p have "p < length h" by (rule fetch_less)
  with p have p1: "fetch ?h1 p = Some (Previous pm)" by (simp add: fetch_append)
  have a1: "fetch ?h1 ?pa = Some (Path [])" by (simp add: fetch_append)
  show ?thesis
  proof (cases "walk pm src dest dest []")
    case None
    have "walk_store p ?pa src dest dest ?h1 = None"
    proof (cases "walk_store p ?pa src dest dest ?h1")
      case (Some out)
      from walk_store_returns [OF Some p1 a1] None show ?thesis by simp
    qed simp
    with None show ?thesis by (simp add: reconstruct_store_def alloc_def)
  next
    case (Some r)
    from walk_store_refines [OF Some k1 le p1 a1] obtain h2 where
      w: "walk_store p ?pa src dest dest ?h1 = Some (map_sum id (\<lambda>x. ()) r, h2)"
      and k2: "take (length h0) h2 = h0" and l2: "length h2 = length ?h1"
      and ys: "\<forall>ys. r = Inr ys \<longrightarrow> fetch h2 ?pa = Some (Path ys)"
      by blast
    show ?thesis
    proof (cases r)
      case (Inl e)
      with Some w k2 show ?thesis by (simp add: reconstruct_store_def alloc_def returned_def)
    next
      case (Inr path)
      with ys have f2: "fetch h2 ?pa = Some (Path path)" by simp
      then have rv: "reverse_path h2 ?pa = Inr (h2[?pa := Path (rev path)])"
        by (simp add: reverse_path_def)
      from l2 have "get_path (h2[?pa := Path (rev path)]) ?pa = Inr (rev path)"
        by (simp add: get_path_def fetch_update)
      moreover from k2 le have "take (length h0) (h2[?pa := Path (rev path)]) = h0" by simp
      ultimately show ?thesis using Inr Some w rv
        by (simp add: reconstruct_store_def alloc_def returned_def)
    qed
  qed
qed

lemma get_shortest_path_store_refines:
  assumes "load_network h a = Some rs"
  shows "map_option returned (get_shortest_path_store set_iter a src dest h) =
       get_shortest_path set_iter rs src dest \<and>
     (\<forall>out h'. get_shortest_path_store set_iter a src dest h = Some (out, h') \<longrightarrow>
        take (length h) h' = h)"
proof -
  let ?st = "init_state rs src"
  from init_store_loaded [OF assms, of src] obtain d u p h1 where
    i: "init_store a src h = (Inr (d, u, p), h1)"
    and t: "holds_tables h h1 d u p (distances ?st) (unvisited ?st) (previous ?st)"
    by blast
  have "routers ?st = rs" by (simp add: init_state_def)
  with assms have net: "load_network h a = Some (routers ?st)" by simp
  from main_loop_store_refines [OF net t, of set_iter dest] obtain h2 where
    m: "main_loop_store set_iter a d u p dest h1 =
        Some (map_sum id (\<lambda>x. ()) (main_loop set_iter dest ?st), h2)"
    and k2: "take (length h) h2 = h"
    and t2: "\<forall>st'. main_loop set_iter dest ?st = Inr st' \<longrightarrow>
        holds_tables h h2 d u p (distances st') (unvisited st') (previous st')"
    by blast
  show ?thesis
  proof (cases "main_loop set_iter dest ?st")
    case (Inl e)
    with i m k2 show ?thesis
      by (simp add: get_shortest_path_store_def get_shortest_path_def run_search_def returned_def)
  next
    case (Inr st')
    with t2 have "fetch h2 p = Some (Previous (previous st'))" by (simp add: holds_tables_def)
    from reconstruct_store_refines [OF k2 this, of src dest] Inr i m show ?thesis
      by (simp add: get_shortest_path_store_def get_shortest_path_def run_search_def)
  qed
qed

lemma dijkstras_shortest_path_store_refines:
  assumes "load_network h a = Some rs"
  shows "map_option returned (dijkstras_shortest_path_store set_iter a src_ip dest_ip h) =
       dijkstras_shortest_path set_iter rs src_ip dest_ip \<and>
     (\<forall>out h'. dijkstras_shortest_path_store set_iter a src_ip dest_ip h = Some (out, h') \<longrightarrow>
        take (length h) h' = h)"
proof (cases "find_router_for_ip rs src_ip")
  case (Inl e)
  then show ?thesis
    by (simp add: dijkstras_shortest_path_store_def dijkstras_shortest_path_def
        find_router_for_ip_store_eq [OF assms] returned_def)
next
  case src: (Inr src)
  show ?thesis
  proof (cases "find_router_for_ip rs dest_ip")
    case (Inl e)
    with src show ?thesis
      by (simp add: dijkstras_shortest_path_store_def dijkstras_shortest_path_def
          find_router_for_ip_store_eq [OF assms] returned_def)
  next
    case (Inr dest)
    with src get_shortest_path_store_refines [OF assms, of set_iter src dest] show ?thesis
      by (simp add: dijkstras_shortest_path_store_def dijkstras_shortest_path_def
          find_router_for_ip_store_eq [OF assms])
  qed
qed

lemma three_routers_loaded: "load_network three_routers_store 12 = Some three_routers"
  by code_simp

section \<open>The claims\<close>

subsection \<open>The route between two hosts\<close>

text \<open>
  C1, as the code has it. When the two host addresses resolve to distinct routers joined by
  some path, the result is a path of least weight that begins with the source router and
  ends with the destination router: the source router is included. For the three routers
  with links A-B of weight 10, B-C of weight 5 and A-C of weight 20, and hosts on the
  subnets of A and C, the result is A, B, C, whatever the iteration order of the set.
\<close>

theorem route_includes_both_routers:
  assumes "iterates set_iter"
  shows "(wf_graph rs \<and> find_router_for_ip rs src_ip = Inr (Some s) \<and>
          find_router_for_ip rs dest_ip = Inr (Some t) \<and> s \<noteq> t \<and> (\<exists>q. is_path rs s t q) \<longrightarrow>
          (\<exists>p. dijkstras_shortest_path set_iter rs src_ip dest_ip = Some (Inr p) \<and>
             hd p = s \<and> last p = t \<and> is_path rs s t p \<and>
             min_weight rs s t (path_weight rs p))) \<and>
         dijkstras_shortest_path set_iter three_routers ''10.0.1.7'' ''10.0.3.9'' =
           Some (Inr [''10.0.1.1'', ''10.0.2.1'', ''10.0.3.1''])"
  using shortest_route [OF _ assms, of rs src_ip s dest_ip t] three_routers_route [OF assms]
  by blast

theorem route_includes_both_routers_witness:
  "iterates insertion_order \<and> wf_graph three_routers \<and>
   find_router_for_ip three_routers ''10.0.1.7'' = Inr (Some ''10.0.1.1'') \<and>
   find_router_for_ip three_routers ''10.0.3.9'' = Inr (Some ''10.0.3.1'') \<and>
   ''10.0.1.1'' \<noteq> ''10.0.3.1'' \<and>
   is_path three_routers ''10.0.1.1'' ''10.0.3.1'' [''10.0.1.1'', ''10.0.3.1''] \<and>
   (\<exists>p. dijkstras_shortest_path insertion_order three_routers ''10.0.1.7'' ''10.0.3.9'' =
          Some (Inr p) \<and>
        hd p = ''10.0.1.1'' \<and> last p = ''10.0.3.1'' \<and>
        is_path three_routers ''10.0.1.1'' ''10.0.3.1'' p \<and>
        min_weight three_routers ''10.0.1.1'' ''10.0.3.1'' (path_weight three_routers p))"
proof -
  have q: "is_path three_routers ''10.0.1.1'' ''10.0.3.1'' [''10.0.1.1'', ''10.0.3.1'']"
    by (simp add: is_path_def three_routers_link_values three_routers_ids)
  have ne: "''10.0.1.1'' \<noteq> ''10.0.3.1''" by simp
  note wf = conjunct1 [OF three_routers_wf]
  from route_includes_both_routers [OF iterates_insertion_order, of three_routers
      "''10.0.1.7''" "''10.0.1.1''" "''10.0.3.9''" "''10.0.3.1''"]
    wf three_routers_locate(1,3) ne q
  have "\<exists>p. dijkstras_shortest_path insertion_order three_routers ''10.0.1.7'' ''10.0.3.9'' =
          Some (Inr p) \<and>
        hd p = ''10.0.1.1'' \<and> last p = ''10.0.3.1'' \<and>
        is_path three_routers ''10.0.1.1'' ''10.0.3.1'' p \<and>
        min_weight three_routers ''10.0.1.1'' ''10.0.3.1'' (path_weight three_routers p)"
    by blast
  with iterates_insertion_order wf three_routers_locate(1,3) ne q show ?thesis by blast
qed

text \<open>
  The three-router topology of the specification: the result holds the source router A and
  is not the sequence B, C.
\<close>

theorem route_excludes_source_counterexample:
  "find_router_for_ip three_routers ''10.0.1.7'' = Inr (Some ''10.0.1.1'') \<and>
   find_router_for_ip three_routers ''10.0.3.9'' = Inr (Some ''10.0.3.1'') \<and>
   dijkstras_shortest_path insertion_order three_routers ''10.0.1.7'' ''10.0.3.9'' =
     Some (Inr [''10.0.1.1'', ''10.0.2.1'', ''10.0.3.1'']) \<and>
   dijkstras_shortest_path insertion_order three_routers ''10.0.1.7'' ''10.0.3.9'' \<noteq>
     Some (Inr [''10.0.2.1'', ''10.0.3.1''])"
  by code_simp

subsection \<open>The distance and predecessor tables\<close>

text \<open>
  C2, as the code has it. On a network whose weights are not negative, for a source and a
  destination router of the network and every iteration order of the unvisited set: the
  engine returns its tables when the destination can be reached or every weight converts to
  a float (otherwise it may raise OverflowError and leave no table). In the tables it
  returns, every visited router that can be reached has as distance the least weight of a
  path from the source; the destination's distance is the least weight of a path to it,
  the predecessor table followed backward from the destination gives a path of that weight,
  and the destination's distance is infinite exactly when there is no path.
\<close>

theorem shortest_path_engine_correct:
  assumes "wf_graph rs" "iterates set_iter"
    "s \<in> set (router_ids rs)" "t \<in> set (router_ids rs)"
  shows "(float_weights rs \<or> (\<exists>p. is_path rs s t p) \<longrightarrow>
           (\<exists>st. run_search set_iter rs (Some s) (Some t) = Inr st)) \<and>
         (\<forall>st. run_search set_iter rs (Some s) (Some t) = Inr st \<longrightarrow>
            (\<forall>v\<in>set (router_ids rs). v \<notin> set (unvisited st) \<longrightarrow> (\<exists>p. is_path rs s v p) \<longrightarrow>
               (\<exists>d. distances st (Some v) = Some (Finite d) \<and> min_weight rs s v d)) \<and>
            ((\<exists>p. is_path rs s t p) \<longrightarrow>
               (\<exists>d p. distances st (Some t) = Some (Finite d) \<and> min_weight rs s t d \<and>
                  pred_chain (previous st) p \<and> is_path rs s t p \<and> path_weight rs p = d)) \<and>
            ((distances st (Some t) = Some Infinity) = (\<not> (\<exists>p. is_path rs s t p))))"
proof (intro conjI allI impI)
  assume "float_weights rs \<or> (\<exists>p. is_path rs s t p)"
  then have "float_weights rs \<or> (\<exists>s' t' p. Some s = Some s' \<and> Some t = Some t' \<and> is_path rs s' t' p)"
    by auto
  from run_search_total [OF assms(1,2) this]
  show "\<exists>st. run_search set_iter rs (Some s) (Some t) = Inr st" .
next
  fix st
  assume run: "run_search set_iter rs (Some s) (Some t) = Inr st"
  from run_search_correct [OF assms(1,2) run]
  have inv: "search_inv rs (Some s) (Some t) st" and fin: "finished set_iter (Some t) st"
    by simp_all
  show "\<forall>v\<in>set (router_ids rs). v \<notin> set (unvisited st) \<longrightarrow> (\<exists>p. is_path rs s v p) \<longrightarrow>
      (\<exists>d. distances st (Some v) = Some (Finite d) \<and> min_weight rs s v d)"
    using visited_optimal [OF inv refl] by blast
  show "\<exists>d p. distances st (Some t) = Some (Finite d) \<and> min_weight rs s t d \<and>
      pred_chain (previous st) p \<and> is_path rs s t p \<and> path_weight rs p = d"
    if "\<exists>p. is_path rs s t p"
    using that destination_optimal [OF assms(1) inv fin assms(2) refl refl] by blast
  show "(distances st (Some t) = Some Infinity) = (\<not> (\<exists>p. is_path rs s t p))"
  proof
    assume inf: "distances st (Some t) = Some Infinity"
    show "\<not> (\<exists>p. is_path rs s t p)"
    proof
      assume "\<exists>p. is_path rs s t p"
      then obtain p where "is_path rs s t p" ..
      from destination_optimal [OF assms(1) inv fin assms(2) refl refl this] inf
      show False by auto
    qed
  next
    assume "\<not> (\<exists>p. is_path rs s t p)"
    from destination_unreachable [OF inv refl assms(4) this]
    show "distances st (Some t) = Some Infinity" .
  qed
qed

theorem shortest_path_engine_correct_witness:
  "wf_graph three_routers \<and> iterates insertion_order \<and>
   ''10.0.1.1'' \<in> set (router_ids three_routers) \<and>
   ''10.0.3.1'' \<in> set (router_ids three_routers) \<and>
   (\<exists>st d p. run_search insertion_order three_routers (Some ''10.0.1.1'') (Some ''10.0.3.1'') = Inr st \<and>
      distances st (Some ''10.0.3.1'') = Some (Finite d) \<and>
      min_weight three_routers ''10.0.1.1'' ''10.0.3.1'' d \<and>
      pred_chain (previous st) p \<and> is_path three_routers ''10.0.1.1'' ''10.0.3.1'' p \<and>
      path_weight three_routers p = d)"
proof -
  have wf: "wf_graph three_routers" and fl: "float_weights three_routers"
    using three_routers_wf by simp_all
  have a: "''10.0.1.1'' \<in> set (router_ids three_routers)"
    and c: "''10.0.3.1'' \<in> set (router_ids three_routers)"
    by (simp_all add: three_routers_ids)
  have "link_weight three_routers ''10.0.1.1'' ''10.0.3.1'' = Some 20" by code_simp
  then have p: "is_path three_routers ''10.0.1.1'' ''10.0.3.1'' [''10.0.1.1'', ''10.0.3.1'']"
    by (simp add: is_path_def three_routers_ids)
  note engine = shortest_path_engine_correct [OF wf iterates_insertion_order a c]
  from engine fl obtain st where
    st: "run_search insertion_order three_routers (Some ''10.0.1.1'') (Some ''10.0.3.1'') = Inr st"
    by blast
  from engine st p have "\<exists>d p. distances st (Some ''10.0.3.1'') = Some (Finite d) \<and>
      min_weight three_routers ''10.0.1.1'' ''10.0.3.1'' d \<and>
      pred_chain (previous st) p \<and> is_path three_routers ''10.0.1.1'' ''10.0.3.1'' p \<and>
      path_weight three_routers p = d"
    by blast
  with wf iterates_insertion_order a c st show ?thesis by blast
qed

text \<open>
  Three routers, the first without a link, the second and third linked with weight 2^1024,
  which is not negative: with the first as source and the third as destination, and the
  second iterated before the third, the second router is visited with an infinite distance,
  adding the weight to it raises OverflowError, and there is no final table.
\<close>

theorem shortest_path_engine_counterexample:
  "wf_graph heavy_links \<and>
   ''10.0.1.1'' \<in> set (router_ids heavy_links) \<and>
   ''10.0.3.1'' \<in> set (router_ids heavy_links) \<and>
   map_option connections (map_of heavy_links ''10.0.1.1'') = Some [] \<and>
   run_search insertion_order heavy_links (Some ''10.0.1.1'') (Some ''10.0.3.1'') =
     Inl OverflowError"
proof -
  have "case run_search insertion_order heavy_links (Some ''10.0.1.1'') (Some ''10.0.3.1'') of
          Inl e \<Rightarrow> e = OverflowError
        | Inr st \<Rightarrow> False"
    by code_simp
  then have "run_search insertion_order heavy_links (Some ''10.0.1.1'') (Some ''10.0.3.1'') =
     Inl OverflowError"
    by (simp split: sum.splits)
  moreover have "wf_graph heavy_links \<and>
     ''10.0.1.1'' \<in> set (router_ids heavy_links) \<and>
     ''10.0.3.1'' \<in> set (router_ids heavy_links) \<and>
     map_option connections (map_of heavy_links ''10.0.1.1'') = Some []"
    by code_simp
  ultimately show ?thesis by simp
qed

subsection \<open>A destination that cannot be reached\<close>

text \<open>
  C3, as the code has it. When the two host addresses resolve to distinct routers with no
  path from the first to the second (and every weight converts to a float), the result is
  the sequence holding the destination router alone: a list, built by the reconstruction
  loop, that is neither an error nor the empty sequence of the same-router case.
\<close>

theorem unreachable_returns_destination:
  assumes "wf_graph rs" "float_weights rs" "iterates set_iter"
    "find_router_for_ip rs src_ip = Inr (Some s)" "find_router_for_ip rs dest_ip = Inr (Some t)"
    "s \<noteq> t" "\<not> (\<exists>p. is_path rs s t p)"
  shows "dijkstras_shortest_path set_iter rs src_ip dest_ip = Some (Inr [t])"
proof -
  from assms(5) have tk: "t \<in> set (router_ids rs)" by (rule find_router_for_ip_member)
  from assms(6) have ne: "Some s \<noteq> Some t" by simp
  from assms(2) have ok: "float_weights rs \<or> (\<exists>s' p. Some s = Some s' \<and> is_path rs s' t p)" ..
  from routed_to_router [OF assms(1,3) ok tk ne]
  obtain st path where inv: "search_inv rs (Some s) (Some t) st"
    and p: "get_shortest_path set_iter rs (Some s) (Some t) = Some (Inr path)"
      "pred_chain (previous st) path" "last path = t"
    by blast
  from destination_unreachable [OF inv refl tk assms(7)]
  have "distances st (Some t) = Some Infinity" .
  from unreached_chain [OF inv tk this] have "pred_chain (previous st) [t]" .
  from pred_chain_unique [OF p(2) this] p(3) have "path = [t]" by simp
  with p(1) assms(4,5) show ?thesis by (simp add: dijkstras_shortest_path_def)
qed

theorem unreachable_returns_destination_witness:
  "wf_graph two_islands \<and> float_weights two_islands \<and> iterates insertion_order \<and>
   find_router_for_ip two_islands ''10.0.1.7'' = Inr (Some ''10.0.1.1'') \<and>
   find_router_for_ip two_islands ''10.0.2.9'' = Inr (Some ''10.0.2.1'') \<and>
   ''10.0.1.1'' \<noteq> ''10.0.2.1'' \<and>
   \<not> (\<exists>p. is_path two_islands ''10.0.1.1'' ''10.0.2.1'' p) \<and>
   dijkstras_shortest_path insertion_order two_islands ''10.0.1.7'' ''10.0.2.9'' =
     Some (Inr [''10.0.2.1''])"
proof -
  have ne: "''10.0.1.1'' \<noteq> ''10.0.2.1''" by simp
  from unreachable_returns_destination [OF conjunct1 [OF two_islands_wf]
      conjunct2 [OF two_islands_wf] iterates_insertion_order two_islands_locate ne
      two_islands_no_path]
    two_islands_wf iterates_insertion_order two_islands_locate ne two_islands_no_path
  show ?thesis by blast
qed

text \<open>
  Two routers and no link: the hosts resolve to the two routers, and the outcome is the
  list holding the destination router, the kind of value a found route is; it is no
  Unreachable outcome and it comes from the reconstruction loop.
\<close>

theorem unreachable_counterexample:
  "find_router_for_ip two_islands ''10.0.1.7'' = Inr (Some ''10.0.1.1'') \<and>
   find_router_for_ip two_islands ''10.0.2.9'' = Inr (Some ''10.0.2.1'') \<and>
   link_weight two_islands ''10.0.1.1'' ''10.0.2.1'' = None \<and>
   dijkstras_shortest_path insertion_order two_islands ''10.0.1.7'' ''10.0.2.9'' =
     Some (Inr [''10.0.2.1''])"
  by code_simp

subsection \<open>A host address on no subnet\<close>

text \<open>
  C4, as the code has it. For a host address that the subnet test places on no router's
  subnet, the router locator returns \<open>None\<close>: it raises nothing and names no router. The
  path computation has no guard and goes on with \<open>None\<close>: with an unmatched destination it
  returns the empty sequence, and with an unmatched source and a matched destination it
  returns the destination router alone (every weight converting to a float).
\<close>

theorem unmatched_address_gives_none:
  "((\<forall>(r, info)\<in>set rs. ips_same_subnet ip r (netmask info) = Inr False) \<longrightarrow>
      find_router_for_ip rs ip = Inr None) \<and>
   (wf_graph rs \<and> float_weights rs \<and> iterates set_iter \<and>
    find_router_for_ip rs src_ip = Inr src \<and> find_router_for_ip rs dest_ip = Inr None \<longrightarrow>
      dijkstras_shortest_path set_iter rs src_ip dest_ip = Some (Inr [])) \<and>
   (wf_graph rs \<and> float_weights rs \<and> iterates set_iter \<and>
    find_router_for_ip rs src_ip = Inr None \<and> find_router_for_ip rs dest_ip = Inr (Some t) \<longrightarrow>
      dijkstras_shortest_path set_iter rs src_ip dest_ip = Some (Inr [t]))"
proof (intro conjI impI)
  assume "\<forall>(r, info)\<in>set rs. ips_same_subnet ip r (netmask info) = Inr False"
  from find_router_loop_none [OF this, of "map fst rs"]
  show "find_router_for_ip rs ip = Inr None"
    by (simp add: find_router_for_ip_def router_ids_def)
next
  assume a: "wf_graph rs \<and> float_weights rs \<and> iterates set_iter \<and>
    find_router_for_ip rs src_ip = Inr src \<and> find_router_for_ip rs dest_ip = Inr None"
  then have wf: "wf_graph rs" and it: "iterates set_iter" by simp_all
  from a have ok: "float_weights rs \<or>
      (\<exists>s t p. src = Some s \<and> (None :: string option) = Some t \<and> is_path rs s t p)" by simp
  have dk: "\<forall>t. (None :: string option) = Some t \<longrightarrow> t \<in> set (router_ids rs)" by simp
  from get_shortest_path_returns [OF wf it ok dk]
  have "get_shortest_path set_iter rs src None = Some (Inr [])" by auto
  with a show "dijkstras_shortest_path set_iter rs src_ip dest_ip = Some (Inr [])"
    by (simp add: dijkstras_shortest_path_def)
next
  assume a: "wf_graph rs \<and> float_weights rs \<and> iterates set_iter \<and>
    find_router_for_ip rs src_ip = Inr None \<and> find_router_for_ip rs dest_ip = Inr (Some t)"
  then have wf: "wf_graph rs" and it: "iterates set_iter" by simp_all
  from a have tk: "t \<in> set (router_ids rs)" using find_router_for_ip_member by blast
  from a have ok: "float_weights rs \<or> (\<exists>s p. (None :: string option) = Some s \<and> is_path rs s t p)"
    by simp
  from routed_to_router [OF wf it ok tk]
  obtain st path where inv: "search_inv rs None (Some t) st"
    and p: "get_shortest_path set_iter rs None (Some t) = Some (Inr path)"
      "pred_chain (previous st) path" "last path = t"
    by blast
  from inv tk obtain dt where dt: "distances st (Some t) = Some dt"
    by (auto simp: search_inv_def inv_tables_def)
  have "dt = Infinity"
  proof (cases dt)
    case (Finite x)
    with dt have "distances st (Some t) = Some (Finite x)" by simp
    from realized [OF inv tk this] show ?thesis by simp
  qed simp
  with dt have "distances st (Some t) = Some Infinity" by simp
  from unreached_chain [OF inv tk this] have "pred_chain (previous st) [t]" .
  from pred_chain_unique [OF p(2) this] p(3) have "path = [t]" by simp
  with p(1) a show "dijkstras_shortest_path set_iter rs src_ip dest_ip = Some (Inr [t])"
    by (simp add: dijkstras_shortest_path_def)
qed

theorem unmatched_address_gives_none_witness:
  "list_all (\<lambda>(r, info). ips_same_subnet ''192.168.0.9'' r (netmask info) = Inr False)
     three_routers \<and>
   find_router_for_ip three_routers ''192.168.0.9'' = Inr None \<and>
   wf_graph three_routers \<and> float_weights three_routers \<and> iterates insertion_order \<and>
   find_router_for_ip three_routers ''10.0.3.9'' = Inr (Some ''10.0.3.1'') \<and>
   dijkstras_shortest_path insertion_order three_routers ''10.0.3.9'' ''192.168.0.9'' =
     Some (Inr []) \<and>
   dijkstras_shortest_path insertion_order three_routers ''192.168.0.9'' ''10.0.3.9'' =
     Some (Inr [''10.0.3.1''])"
proof -
  have h: "\<forall>(r, info)\<in>set three_routers.
      ips_same_subnet ''192.168.0.9'' r (netmask info) = Inr False"
    using three_routers_unmatched by (simp add: list_all_iff)
  note t = unmatched_address_gives_none [of three_routers "''192.168.0.9''" insertion_order]
  from t [of "''10.0.3.9''" "Some ''10.0.3.1''" "''192.168.0.9''" "''10.0.3.1''"] h
  have a: "find_router_for_ip three_routers ''192.168.0.9'' = Inr None" by blast
  from t [of "''10.0.3.9''" "Some ''10.0.3.1''" "''192.168.0.9''" "''10.0.3.1''"] a
    three_routers_wf iterates_insertion_order three_routers_locate(3)
  have b: "dijkstras_shortest_path insertion_order three_routers ''10.0.3.9'' ''192.168.0.9'' =
     Some (Inr [])" by blast
  from t [of "''192.168.0.9''" None "''10.0.3.9''" "''10.0.3.1''"] a
    three_routers_wf iterates_insertion_order three_routers_locate(3)
  have c: "dijkstras_shortest_path insertion_order three_routers ''192.168.0.9'' ''10.0.3.9'' =
     Some (Inr [''10.0.3.1''])" by blast
  from three_routers_unmatched a b c three_routers_wf iterates_insertion_order
    three_routers_locate(3)
  show ?thesis by blast
qed

text \<open>
  An address on no router's subnet: the locator returns \<open>None\<close> and the path computation
  returns a list; nothing is raised.
\<close>

theorem unmatched_address_counterexample:
  "find_router_for_ip three_routers ''192.168.0.9'' = Inr None \<and>
   dijkstras_shortest_path insertion_order three_routers ''192.168.0.9'' ''10.0.3.9'' =
     Some (Inr [''10.0.3.1'']) \<and>
   dijkstras_shortest_path insertion_order three_routers ''10.0.3.9'' ''192.168.0.9'' =
     Some (Inr [])"
  by code_simp

subsection \<open>Round trips of the address codec\<close>

text \<open>
  C5. The address codec round-trips: for every canonical dotted-quad string \<open>s\<close> (four
  decimal octets 0 to 255 with no leading zeros), \<open>ipv4_to_value s\<close> returns a value
  that \<open>value_to_ipv4\<close> writes back as \<open>s\<close>; and for every 32-bit unsigned value
  \<open>v\<close>, \<open>ipv4_to_value (value_to_ipv4 v)\<close> returns \<open>v\<close>.
\<close>

theorem address_codec_round_trip:
  "(canonical_quad s \<longrightarrow> (\<exists>v. ipv4_to_value s = Inr v \<and> value_to_ipv4 v = s)) \<and>
   (0 \<le> v \<and> v < 2 ^ 32 \<longrightarrow> ipv4_to_value (value_to_ipv4 v) = Inr v)"
  using ipv4_to_value_canonical [of s] ipv4_to_value_value_to_ipv4 [of v] by blast

theorem address_codec_round_trip_witness:
  "canonical_quad ''10.0.0.5'' \<and>
   (\<exists>v. ipv4_to_value ''10.0.0.5'' = Inr v \<and> value_to_ipv4 v = ''10.0.0.5'') \<and>
   (0::int) \<le> 3232235777 \<and> (3232235777::int) < 2 ^ 32 \<and>
   ipv4_to_value (value_to_ipv4 3232235777) = Inr 3232235777"
proof -
  have c: "canonical_quad ''10.0.0.5''"
    by (simp add: canonical_quad_def canonical_octet_def is_digit_def decimal_value_def dec_step_def digit_val_def)
  have r: "(0::int) \<le> 3232235777 \<and> (3232235777::int) < 2 ^ 32" by simp
  from address_codec_round_trip [of "''10.0.0.5''" 3232235777] c r show ?thesis by blast
qed

subsection \<open>Texts that are not dotted quads\<close>

text \<open>
  C6, as the code has it. \<open>ipv4_to_value\<close> returns a value exactly when the text has at
  least four dot-separated fields and \<open>int()\<close> accepts each of the first four; every
  other text raises IndexError or ValueError. There is no range check and no check that the
  fields are only four, so it succeeds on every canonical dotted quad (with a value below
  2^32), and also on texts that are not dotted quads.
\<close>

theorem ipv4_to_value_success:
  "((\<exists>v. ipv4_to_value s = Inr v) =
      (4 \<le> length (split_on CHR ''.'' s) \<and>
       (\<forall>i<4. \<exists>n. py_int (split_on CHR ''.'' s ! i) = Inr n))) \<and>
   (ipv4_to_value s = Inl e \<longrightarrow> e = IndexError \<or> e = ValueError) \<and>
   (canonical_quad s \<longrightarrow> (\<exists>v. ipv4_to_value s = Inr v \<and> 0 \<le> v \<and> v < 2 ^ 32))"
proof -
  have four: "(\<forall>i<4. P i) = (P 0 \<and> P (Suc 0) \<and> P 2 \<and> P (3::nat))" for P
  proof -
    have "i < 4 \<longleftrightarrow> i = 0 \<or> i = Suc 0 \<or> i = 2 \<or> i = 3" for i :: nat by auto
    then show ?thesis by auto
  qed
  have "(\<exists>v. ipv4_to_value s = Inr v) =
      (\<forall>i<4. i < length (split_on CHR ''.'' s) \<and> (\<exists>n. py_int (split_on CHR ''.'' s ! i) = Inr n))"
    unfolding ipv4_to_value_def ipv4_loop_succeeds four by simp
  also have "\<dots> = (4 \<le> length (split_on CHR ''.'' s) \<and>
       (\<forall>i<4. \<exists>n. py_int (split_on CHR ''.'' s ! i) = Inr n))"
    by (auto simp: four)
  finally show ?thesis
    using ipv4_loop_error [of "split_on CHR ''.'' s" "[0,1,2,3]" 0 e] ipv4_to_value_canonical [of s]
    by (auto simp: ipv4_to_value_def)
qed

theorem ipv4_to_value_success_witness:
  "(\<exists>v. ipv4_to_value ''1.2.3.999'' = Inr v) \<and> ipv4_to_value ''1.2.3'' = Inl IndexError \<and>
   ipv4_to_value ''1.2.x.4'' = Inl ValueError"
proof -
  have a: "split_on CHR ''.'' ''1.2.3.999'' = [''1'', ''2'', ''3'', ''999'']" by simp
  have four: "(\<forall>i<4. P i) = (P 0 \<and> P (Suc 0) \<and> P 2 \<and> P (3::nat))" for P
  proof -
    have "i < 4 \<longleftrightarrow> i = 0 \<or> i = Suc 0 \<or> i = 2 \<or> i = 3" for i :: nat by auto
    then show ?thesis by auto
  qed
  have b: "\<forall>i<4. \<exists>n. py_int (split_on CHR ''.'' ''1.2.3.999'' ! i) = Inr n"
    unfolding a four
    by (simp add: py_int_def strip_def py_isspace_def unsigned_literal_def is_digit_def)
  have c: "ipv4_to_value ''1.2.3'' = Inl IndexError" by code_simp
  have d: "ipv4_to_value ''1.2.x.4'' = Inl ValueError" by code_simp
  from ipv4_to_value_success [of "''1.2.3.999''"] a b c d show ?thesis by simp
qed

text \<open>
  A text of five fields and a text whose first octet is 256 are not dotted quads, and the
  function returns a value.
\<close>

theorem ipv4_to_value_counterexample:
  "ipv4_to_value ''1.2.3.4.5'' = Inr 16909060 \<and> ipv4_to_value ''256.0.0.0'' = Inr 4294967296"
  by code_simp

subsection \<open>Prefix lengths outside 0 to 32\<close>

text \<open>
  C7, as the code has it. \<open>get_subnet_mask_value\<close> checks no range. On a text ending in
  a slash and the decimal prefix length \<open>n\<close> it returns, for 0 \<le> n \<le> 32, the value whose
  bits 31 down to 32 - n are set and whose other bits are clear (24 gives 0xFFFFFF00, 0 gives
  0, 32 gives 0xFFFFFFFF). Outside 0 to 32 it still returns a value while the two repeat
  counts fit the index type: 0 for n below 0 and above 32 - 2^63, and 2^n - 1 for n above
  32 and below 2^63. From 2^63 on and from 32 - 2^63 down the repetition raises
  OverflowError. It raises nothing else on such a text.
\<close>

theorem get_subnet_mask_value_unchecked:
  "CHR ''/'' \<notin> set pre \<Longrightarrow>
   (0 \<le> n \<and> n \<le> 32 \<longrightarrow>
      (\<exists>m. get_subnet_mask_value (pre @ ''/'' @ py_str n) = Inr m \<and>
           (\<forall>i. bit m i = (32 - nat n \<le> i \<and> i < 32)))) \<and>
   (32 - index_limit < n \<and> n < 0 \<longrightarrow>
      get_subnet_mask_value (pre @ ''/'' @ py_str n) = Inr 0) \<and>
   (32 < n \<and> n < index_limit \<longrightarrow>
      get_subnet_mask_value (pre @ ''/'' @ py_str n) = Inr (2 ^ nat n - 1)) \<and>
   (n \<le> 32 - index_limit \<or> index_limit \<le> n \<longrightarrow>
      get_subnet_mask_value (pre @ ''/'' @ py_str n) = Inl OverflowError) \<and>
   get_subnet_mask_value ''/24'' = Inr 0xFFFFFF00 \<and>
   get_subnet_mask_value ''/0'' = Inr 0x00000000 \<and>
   get_subnet_mask_value ''/32'' = Inr 0xFFFFFFFF"
proof -
  assume p: "CHR ''/'' \<notin> set pre"
  let ?m = "(2 ^ nat n - 1) * 2 ^ nat (32 - n) :: int"
  have a: "get_subnet_mask_value (pre @ ''/'' @ py_str n) = Inr ?m"
    if "32 - index_limit < n" "n < index_limit"
    by (rule get_subnet_mask_value_str [OF p that])
  have b: "\<exists>m. get_subnet_mask_value (pre @ ''/'' @ py_str n) = Inr m \<and>
      (\<forall>i. bit m i = (32 - nat n \<le> i \<and> i < 32))" if "0 \<le> n \<and> n \<le> 32"
  proof -
    from that have "nat (32 - n) = 32 - nat n" "nat n \<le> 32" by linarith+
    then have "\<forall>i. bit ?m i = (32 - nat n \<le> i \<and> i < 32)"
      using top_bits [of "nat n"] by simp
    moreover from that have "32 - index_limit < n" "n < index_limit"
      by (simp_all add: index_limit_def)
    from a [OF this] have "get_subnet_mask_value (pre @ ''/'' @ py_str n) = Inr ?m" .
    ultimately show ?thesis by blast
  qed
  have c: "get_subnet_mask_value (pre @ ''/'' @ py_str n) = Inr 0"
    if "32 - index_limit < n \<and> n < 0"
  proof -
    from that have "32 - index_limit < n" "n < index_limit"
      by (simp_all add: index_limit_def)
    from a [OF this] that show ?thesis by simp
  qed
  have d: "get_subnet_mask_value (pre @ ''/'' @ py_str n) = Inr (2 ^ nat n - 1)"
    if "32 < n \<and> n < index_limit"
  proof -
    from that have "32 - index_limit < n" "n < index_limit"
      by (simp_all add: index_limit_def)
    from a [OF this] that show ?thesis by simp
  qed
  have o: "get_subnet_mask_value (pre @ ''/'' @ py_str n) = Inl OverflowError"
    if "n \<le> 32 - index_limit \<or> index_limit \<le> n"
    by (rule get_subnet_mask_value_overflow [OF p that])
  have e: "get_subnet_mask_value ''/24'' = Inr 0xFFFFFF00"
    "get_subnet_mask_value ''/0'' = Inr 0x00000000"
    "get_subnet_mask_value ''/32'' = Inr 0xFFFFFFFF"
    by code_simp+
  from b c d o e show ?thesis by blast
qed

theorem get_subnet_mask_value_unchecked_witness:
  "CHR ''/'' \<notin> set ''10.0.0.0'' \<and>
   32 < (40 :: int) \<and> (40 :: int) < index_limit \<and>
   get_subnet_mask_value (''10.0.0.0'' @ ''/'' @ py_str 40) = Inr (2 ^ nat 40 - 1) \<and>
   index_limit \<le> 2 ^ 64 \<and>
   get_subnet_mask_value (''10.0.0.0'' @ ''/'' @ py_str (2 ^ 64)) = Inl OverflowError"
proof -
  have p: "CHR ''/'' \<notin> set ''10.0.0.0''" by simp
  have q: "32 < (40 :: int)" "(40 :: int) < index_limit" "index_limit \<le> 2 ^ 64"
    by (simp_all add: index_limit_def)
  from get_subnet_mask_value_unchecked [OF p, of 40] p q
  have "get_subnet_mask_value (''10.0.0.0'' @ ''/'' @ py_str 40) = Inr (2 ^ nat 40 - 1)"
    by blast
  moreover from get_subnet_mask_value_unchecked [OF p, of "2 ^ 64"] q
  have "get_subnet_mask_value (''10.0.0.0'' @ ''/'' @ py_str (2 ^ 64)) = Inl OverflowError"
    by blast
  ultimately show ?thesis using p q by blast
qed

text \<open>
  The prefix lengths 33 and -1 are outside 0 to 32, and the function returns a value; the
  prefix length 2^63 makes it raise, and what it raises is OverflowError.
\<close>

theorem get_subnet_mask_value_counterexample:
  "get_subnet_mask_value ''/33'' = Inr 8589934591 \<and>
   get_subnet_mask_value ''/-1'' = Inr 0 \<and>
   get_subnet_mask_value ''/9223372036854775808'' = Inl OverflowError"
  by code_simp

subsection \<open>Two hosts on one router\<close>

text \<open>
  C8. When both host addresses resolve to the same router, the result is the empty
  sequence.
\<close>

theorem same_router_empty_path:
  assumes "iterates set_iter"
    "find_router_for_ip rs src_ip = Inr (Some r)" "find_router_for_ip rs dest_ip = Inr (Some r)"
  shows "dijkstras_shortest_path set_iter rs src_ip dest_ip = Some (Inr [])"
proof -
  let ?st = "init_state rs (Some r)"
  from assms(2) have rk: "r \<in> set (router_ids rs)" by (rule find_router_for_ip_member)
  have tb: "inv_tables rs ?st"
    using init_state_inv [of rs "Some r" "Some r"] by (simp add: search_inv_def)
  from rk have ne: "unvisited ?st \<noteq> []" by (auto simp: init_state_fields)
  from py_min_unvisited [OF tb assms(1) ne]
  obtain cur dc where mn: "py_min (distances ?st) (set_iter (unvisited ?st)) = Inr cur"
    and cu: "cur \<in> set (unvisited ?st)" and dc: "distances ?st (Some cur) = Some dc"
    and least: "\<forall>x\<in>set (unvisited ?st). \<forall>v. distances ?st (Some x) = Some v \<longrightarrow> \<not> dist_less v dc"
    by blast
  have "cur = r"
  proof (rule ccontr)
    assume "cur \<noteq> r"
    with cu dc have "dc = Infinity" by (simp add: init_state_fields)
    moreover have "distances ?st (Some r) = Some (Finite 0)" using rk by (simp add: init_state_fields)
    with rk least have "\<not> dist_less (Finite 0) dc" by (simp add: init_state_fields(2))
    ultimately show False by simp
  qed
  with ne mn have "main_loop set_iter (Some r) ?st = Inr ?st"
    by (simp add: main_loop.simps [of set_iter "Some r" ?st])
  then have "get_shortest_path set_iter rs (Some r) (Some r) = Some (Inr [])"
    by (simp add: get_shortest_path_def run_search_def walk_same)
  with assms(2,3) show ?thesis by (simp add: dijkstras_shortest_path_def)
qed

theorem same_router_empty_path_witness:
  "iterates insertion_order \<and>
   find_router_for_ip three_routers ''10.0.1.7'' = Inr (Some ''10.0.1.1'') \<and>
   find_router_for_ip three_routers ''10.0.1.9'' = Inr (Some ''10.0.1.1'') \<and>
   dijkstras_shortest_path insertion_order three_routers ''10.0.1.7'' ''10.0.1.9'' = Some (Inr [])"
  using same_router_empty_path [OF iterates_insertion_order three_routers_locate(1,2)]
    iterates_insertion_order three_routers_locate(1,2) by simp

subsection \<open>The network is left as it was\<close>

text \<open>
  C9. The network is the dictionary at an address of the store. Whatever a call of
  \<open>dijkstras_shortest_path\<close> does, returning a list or raising an exception, it hands
  to its caller what the function on the contents of the network computes, and the store
  it leaves has every object of the store it was given, unchanged, with new objects added
  at the end; so the address still holds the same network, and the same call on the store
  it leaves hands the same result to its caller. A call that does not return is one that
  the function on the contents does not return from.
\<close>

theorem network_not_mutated:
  assumes "load_network h routers_at = Some rs"
  shows "map_option returned (dijkstras_shortest_path_store set_iter routers_at src_ip dest_ip h) =
       dijkstras_shortest_path set_iter rs src_ip dest_ip \<and>
     (\<forall>out h'. dijkstras_shortest_path_store set_iter routers_at src_ip dest_ip h = Some (out, h') \<longrightarrow>
        take (length h) h' = h \<and>
        load_network h' routers_at = Some rs \<and>
        map_option returned (dijkstras_shortest_path_store set_iter routers_at src_ip dest_ip h') =
          Some (returned (out, h')))"
proof (intro conjI allI impI)
  note r = dijkstras_shortest_path_store_refines [OF assms, of set_iter src_ip dest_ip]
  from r show "map_option returned (dijkstras_shortest_path_store set_iter routers_at src_ip dest_ip h) =
       dijkstras_shortest_path set_iter rs src_ip dest_ip" by simp
  fix out h'
  assume run: "dijkstras_shortest_path_store set_iter routers_at src_ip dest_ip h = Some (out, h')"
  with r show k: "take (length h) h' = h" by simp
  from load_network_kept [OF k assms] show net: "load_network h' routers_at = Some rs" .
  from dijkstras_shortest_path_store_refines [OF net, of set_iter src_ip dest_ip] r run
  show "map_option returned (dijkstras_shortest_path_store set_iter routers_at src_ip dest_ip h') =
          Some (returned (out, h'))" by simp
qed

theorem network_not_mutated_witness:
  "load_network three_routers_store 12 = Some three_routers \<and>
   (\<exists>out h'. dijkstras_shortest_path_store insertion_order 12 ''10.0.1.7'' ''10.0.3.9''
        three_routers_store = Some (out, h') \<and>
      returned (out, h') = Inr [''10.0.1.1'', ''10.0.2.1'', ''10.0.3.1''] \<and>
      take (length three_routers_store) h' = three_routers_store \<and>
      load_network h' 12 = Some three_routers \<and>
      map_option returned
        (dijkstras_shortest_path_store insertion_order 12 ''10.0.1.7'' ''10.0.3.9'' h') =
        Some (Inr [''10.0.1.1'', ''10.0.2.1'', ''10.0.3.1'']))"
proof -
  note n = network_not_mutated [OF three_routers_loaded, of insertion_order "''10.0.1.7''" "''10.0.3.9''"]
  have "dijkstras_shortest_path insertion_order three_routers ''10.0.1.7'' ''10.0.3.9'' =
      Some (Inr [''10.0.1.1'', ''10.0.2.1'', ''10.0.3.1''])"
    by code_simp
  with n obtain out h' where
    run: "dijkstras_shortest_path_store insertion_order 12 ''10.0.1.7'' ''10.0.3.9''
        three_routers_store = Some (out, h')"
    and ret: "returned (out, h') = Inr [''10.0.1.1'', ''10.0.2.1'', ''10.0.3.1'']"
    by auto
  from n run ret three_routers_loaded show ?thesis by auto
qed

subsection \<open>Termination without an exception\<close>

text \<open>
  C10, as the code has it. On a network with distinct keys, canonical router addresses,
  netmasks of prefix length 0 to 32 and weights from 0 up to the largest integer Python
  converts to a float, for host addresses in canonical dotted-quad form and every iteration
  order of the unvisited set, the computation ends and returns a list, also when a host
  address matches no subnet.
\<close>

theorem dijkstras_shortest_path_returns:
  assumes "wf_graph rs" "wf_addressing rs" "float_weights rs" "iterates set_iter"
    "canonical_quad src_ip" "canonical_quad dest_ip"
  shows "\<exists>path. dijkstras_shortest_path set_iter rs src_ip dest_ip = Some (Inr path)"
proof -
  from find_router_for_ip_total [OF assms(2,5)] obtain src where
    src: "find_router_for_ip rs src_ip = Inr src" by blast
  from find_router_for_ip_total [OF assms(2,6)] obtain dest where
    dest: "find_router_for_ip rs dest_ip = Inr dest" by blast
  from assms(3) have ok: "float_weights rs \<or>
      (\<exists>s t p. src = Some s \<and> dest = Some t \<and> is_path rs s t p)" ..
  have dk: "\<forall>t. dest = Some t \<longrightarrow> t \<in> set (router_ids rs)"
    using dest find_router_for_ip_member by blast
  from get_shortest_path_returns [OF assms(1,4) ok dk]
  obtain path where "get_shortest_path set_iter rs src dest = Some (Inr path)" by blast
  with src dest show ?thesis by (simp add: dijkstras_shortest_path_def)
qed

theorem dijkstras_shortest_path_returns_witness:
  "wf_graph three_routers \<and> wf_addressing three_routers \<and> float_weights three_routers \<and>
   iterates insertion_order \<and> canonical_quad ''10.0.1.7'' \<and> canonical_quad ''192.168.0.9'' \<and>
   (\<exists>path. dijkstras_shortest_path insertion_order three_routers ''10.0.1.7'' ''192.168.0.9'' =
      Some (Inr path))"
  using dijkstras_shortest_path_returns [OF conjunct1 [OF three_routers_wf]
      three_routers_addressing conjunct2 [OF three_routers_wf] iterates_insertion_order
      canonical_examples]
    three_routers_wf three_routers_addressing iterates_insertion_order canonical_examples
  by blast

text \<open>
  Three routers, the second and third linked with weight 2^1024, a source host on the first
  router's subnet and a destination host on no subnet: the second router is visited with
  an infinite distance, and adding the weight to it raises OverflowError.
\<close>

theorem dijkstras_shortest_path_raises_counterexample:
  "wf_graph heavy_links \<and> wf_addressing heavy_links \<and>
   canonical_quad ''10.0.1.7'' \<and> canonical_quad ''192.168.0.9'' \<and>
   dijkstras_shortest_path insertion_order heavy_links ''10.0.1.7'' ''192.168.0.9'' =
     Some (Inl OverflowError)"
  by code_simp


end
